theory Spec2Isabelle
  imports Main "HOL-Library.Sublist"
begin

unbundle bit_operations_syntax

section \<open>Data model of the cache client (\<open>cacheHttpClient.ts\<close>)\<close>

text \<open>
  A JavaScript string is modelled by the list of its UTF-8 bytes (\<open>string\<close>), a
  JavaScript number that holds a size, an offset, a status code or a count by an
  \<open>int\<close>, an optional value (\<open>T | undefined | null\<close>) by an \<open>option\<close>.
  Numbers that are not integers are not modelled; the arithmetic of \<open>uploadFile\<close> on
  sizes and offsets is rounded as IEEE-754 doubles round it (\<open>double\<close> below).
  A thrown error is a value of \<open>error\<close>; a function that may throw returns
  \<open>error + 'a\<close> with \<open>Inl\<close> for the throw.
\<close>

datatype error =
    CacheServiceUrlNotFound
      \<comment> \<open>\<open>Error('Cache Service Url not found, unable to restore cache.')\<close>\<close>
  | ServiceResponded int
      \<comment> \<open>\<open>Error(`Cache service responded with ${statusCode}`)\<close>\<close>
  | CacheNotFound
      \<comment> \<open>\<open>Error('Cache not found.')\<close>\<close>
  | ChunkResponded "int option"
      \<comment> \<open>\<open>Error(`Cache service responded with ${statusCode} during upload chunk.`)\<close>\<close>
  | CommitResponded int
      \<comment> \<open>\<open>Error(`Cache service responded with ${statusCode} during commit cache.`)\<close>\<close>
  | UploadFailedBecause error
      \<comment> \<open>\<open>Error(`Cache upload failed because ${error}`)\<close>\<close>
  | InvalidArrayLength
      \<comment> \<open>the \<open>RangeError\<close> of \<open>new Array(n)\<close>\<close>
  | InvalidURL
      \<comment> \<open>the \<open>TypeError\<close> of \<open>new URL(s)\<close>\<close>
  | External string
      \<comment> \<open>anything thrown by a collaborator that is not part of these sources\<close>
  | TransportError int
      \<comment> \<open>the error of a retried request whose last attempt was answered with this 5xx
          status (the spec's TransportError, fatal after exhaustion)\<close>

record ArtifactCacheEntry =
  cacheKey :: "string option"
  creationTime :: "string option"
  archiveLocation :: "string option"

record InternalCacheOptions =
  compressionMethod :: "string option"
  cacheSize :: "int option"

record ReserveCacheRequest =
  requestKey :: string
  requestVersion :: string
  requestCacheSize :: "int option"

record 'a TypedResponse =
  statusCode :: int
  result :: "'a option"
  headers :: "(string \<times> string) list"

record DownloadOptions =
  useAzureSdk :: "bool option"
  downloadConcurrency :: "int option"
  timeoutInMs :: "int option"

record UploadOptions =
  uploadConcurrency :: "int option"
  uploadChunkSize :: "int option"

text \<open>One blob of a container listing, with its \<open>lastModified\<close> date already in ISO form.\<close>

record BlobItem =
  name :: string
  lastModified :: string

text \<open>
  The asynchronous iterator returned by \<open>listBlobsFlat()\<close>: it ends, yields one more
  blob, or throws.
\<close>

datatype blob_iter = Done | Yield BlobItem blob_iter | Throw error

text \<open>
  What the client does to the outside, in the order it does it: the mask command of
  \<open>core.setSecret\<close>, the debug lines that print a cache entry, the calls to the three
  download helpers, the upload of the whole file to a container, the call of
  \<open>uploadChunk\<close> for a byte range, closing the archive's descriptor, and the call of
  \<open>commitCache\<close>. The other debug and info lines are not recorded.
\<close>

datatype event =
    AddMask string
  | Debug string
  | DebugJson "ArtifactCacheEntry option"
  | DownloadCacheStorageSDK string string
  | DownloadCacheBlobStorage string string string string
  | DownloadCacheHttpClient string string
  | UploadStream string string string string int
  | UploadChunk string int int
  | CloseSync int
  | CommitCache int int

text \<open>
  The collaborators whose code is outside these sources are parameters: the process
  environment, Node's \<open>crypto\<close>, \<open>URL\<close> and \<open>fs\<close>, \<open>encodeURIComponent\<close>,
  \<open>Number.prototype.toString\<close>, the storage SDK, and the helpers imported from
  \<open>./requestUtils\<close>, \<open>./downloadUtils\<close>, \<open>./cacheUtils\<close> and \<open>../options\<close>.
  \<open>sha256_hex s\<close> stands for \<open>crypto.createHash('sha256').update(s).digest('hex')\<close> and
  \<open>url_hostname s\<close> for \<open>new URL(s).hostname\<close>, with \<open>None\<close> when the constructor
  throws. A retried request (\<open>retryTypedResponse\<close>, \<open>retryHttpClientResponse\<close>) receives
  what its thunk computes (the URL of \<open>getCacheApiUrl\<close>, or the error it throws) and
  returns the final response or throws; a chunk upload returns the status code of its
  final response, which may be undefined. For the reservation the retry is not a
  parameter (see \<open>retryTypedResponse\<close> below): there \<open>postJson_reserve w url request k\<close> is
  what the \<open>k\<close>-th call of \<open>httpClient.postJson\<close> returns or throws, \<open>maxRetries\<close> is the
  number of attempts that may follow the first, and \<open>isRecoverableError\<close> tells which
  errors thrown by the HTTP client are recoverable transport errors.
\<close>

record world =
  ACTIONS_CACHE_URL :: "string option"
  sha256_hex :: "string \<Rightarrow> string"
  encodeURIComponent :: "string \<Rightarrow> string"
  url_hostname :: "string \<Rightarrow> string option"
  isSuccessStatusCode :: "int option \<Rightarrow> bool"
  listBlobsFlat :: "string \<Rightarrow> string \<Rightarrow> blob_iter"
  getJson_retried :: "error + string \<Rightarrow> error + ArtifactCacheEntry TypedResponse"
  postJson_reserve ::
    "string \<Rightarrow> ReserveCacheRequest \<Rightarrow> nat \<Rightarrow> error + int TypedResponse"
  maxRetries :: nat
  isRecoverableError :: "string \<Rightarrow> bool"
  getDownloadOptions :: "DownloadOptions option \<Rightarrow> DownloadOptions"
  downloadCacheStorageSDK :: "string \<Rightarrow> string \<Rightarrow> DownloadOptions \<Rightarrow> error + unit"
  downloadCacheBlobStorage ::
    "string \<Rightarrow> string \<Rightarrow> DownloadOptions \<Rightarrow> string \<Rightarrow> string \<Rightarrow> error + unit"
  downloadCacheHttpClient :: "string \<Rightarrow> string \<Rightarrow> error + unit"
  getUploadOptions :: "UploadOptions option \<Rightarrow> UploadOptions"
  assertDefined :: "string \<Rightarrow> int option \<Rightarrow> error + int"
  numberToString :: "int \<Rightarrow> string"
  getArchiveFileSizeInBytes :: "string \<Rightarrow> error + int"
  openSync :: "string \<Rightarrow> error + int"
  sendStream_retried :: "string \<Rightarrow> int \<Rightarrow> int \<Rightarrow> error + int option"
  uploadStream :: "string \<Rightarrow> string \<Rightarrow> string \<Rightarrow> string \<Rightarrow> int \<Rightarrow> error + unit"
  postJson_commit_retried :: "error + string \<Rightarrow> int \<Rightarrow> error + unit TypedResponse"

text \<open>JavaScript truthiness of an optional string: \<open>undefined\<close> and \<open>''\<close> are falsy.\<close>

fun truthy :: "string option \<Rightarrow> bool" where
  "truthy None = False"
| "truthy (Some s) = (s \<noteq> [])"

text \<open>The string a truthy optional string holds.\<close>

definition stringOf :: "string option \<Rightarrow> string" where
  "stringOf s = (case s of None \<Rightarrow> [] | Some x \<Rightarrow> x)"

text \<open>\<open>Array.prototype.join\<close> on an array of strings.\<close>

fun join :: "string \<Rightarrow> string list \<Rightarrow> string" where
  "join sep [] = []"
| "join sep [x] = x"
| "join sep (x # y # ys) = x @ sep @ join sep (y # ys)"

section \<open>The cache version\<close>

definition versionSalt :: string where
  "versionSalt = ''1.0''"

text \<open>
  Modelled from the spec: the member \<open>CompressionMethod.Gzip\<close> of the enum in
  \<open>./constants\<close>, which is not among the sources; the spec gives its token as "gzip".
  At run time a member of the enum is its string.
\<close>

definition Gzip :: string where
  "Gzip = ''gzip''"

text \<open>
  The array \<open>components\<close> of \<open>getCacheVersion\<close> once the salt is pushed: the paths,
  then the compression method unless it is falsy or \<open>CompressionMethod.Gzip\<close>, then
  the salt.
\<close>

definition versionComponents :: "string list \<Rightarrow> string option \<Rightarrow> string list" where
  "versionComponents paths compressionMethod' =
     (let components = paths @
            (if \<not> truthy compressionMethod' \<or> compressionMethod' = Some Gzip
             then [] else [stringOf compressionMethod'])
      in components @ [versionSalt])"

definition getCacheVersion :: "world \<Rightarrow> string list \<Rightarrow> string option \<Rightarrow> string" where
  "getCacheVersion w paths compressionMethod' =
     sha256_hex w (join ''|'' (versionComponents paths compressionMethod'))"

section \<open>Lookup\<close>

definition getCacheApiUrl :: "world \<Rightarrow> string \<Rightarrow> error + string" where
  "getCacheApiUrl w resource =
     (let baseUrl = (case ACTIONS_CACHE_URL w of None \<Rightarrow> [] | Some u \<Rightarrow> u)
      in if baseUrl = [] then Inl CacheServiceUrlNotFound
         else Inr (baseUrl @ ''_apis/artifactcache/'' @ resource))"

text \<open>The inner loop of \<open>getCacheEntryBlob\<close>: \<open>for (const key of notPrimaryKey)\<close>.\<close>

fun matchNotPrimaryKey :: "string list \<Rightarrow> BlobItem \<Rightarrow> ArtifactCacheEntry option" where
  "matchNotPrimaryKey [] blob = None"
| "matchNotPrimaryKey (k # ks) blob =
     (if name blob = k
      then Some \<lparr>cacheKey = Some (name blob), creationTime = Some (lastModified blob),
                 archiveLocation = None\<rparr>
      else matchNotPrimaryKey ks blob)"

text \<open>The outer loop: \<open>for await (const blob of blobList)\<close>.\<close>

fun blobLoop ::
  "string option \<Rightarrow> string list \<Rightarrow> blob_iter \<Rightarrow> error + ArtifactCacheEntry option" where
  "blobLoop primaryKey notPrimaryKey Done = Inr None"
| "blobLoop primaryKey notPrimaryKey (Throw e) = Inl e"
| "blobLoop primaryKey notPrimaryKey (Yield blob rest) =
     (if Some (name blob) = primaryKey
      then Inr (Some \<lparr>cacheKey = primaryKey, creationTime = Some (lastModified blob),
                      archiveLocation = None\<rparr>)
      else case matchNotPrimaryKey notPrimaryKey blob of
             Some entry \<Rightarrow> Inr (Some entry)
           | None \<Rightarrow> blobLoop primaryKey notPrimaryKey rest)"

definition getCacheEntryBlob ::
  "world \<Rightarrow> string \<Rightarrow> string \<Rightarrow> string list \<Rightarrow> string list
    \<Rightarrow> error + ArtifactCacheEntry option" where
  "getCacheEntryBlob w connectionString blobContainerName keys paths =
     (let primaryKey = (case keys of [] \<Rightarrow> None | k # _ \<Rightarrow> Some k);
          notPrimaryKey = drop 1 keys;
          blobList = listBlobsFlat w connectionString blobContainerName
      in blobLoop primaryKey notPrimaryKey blobList)"

text \<open>
  The response that \<open>getCacheEntry\<close> awaits:
  \<open>retryTypedResponse('getCacheEntry', async () => httpClient.getJson(getCacheApiUrl(resource)))\<close>.
  \<open>options?.compressionMethod\<close> is \<open>Option.bind options compressionMethod\<close>.
\<close>

definition getCacheEntryResponse ::
  "world \<Rightarrow> string list \<Rightarrow> string list \<Rightarrow> InternalCacheOptions option
    \<Rightarrow> error + ArtifactCacheEntry TypedResponse" where
  "getCacheEntryResponse w keys paths options =
     (let version = getCacheVersion w paths (Option.bind options compressionMethod);
          resource = ''cache?keys='' @ encodeURIComponent w (join '','' keys)
            @ ''&version='' @ version
      in getJson_retried w (getCacheApiUrl w resource))"

definition getCacheEntry ::
  "world \<Rightarrow> string list \<Rightarrow> string list \<Rightarrow> InternalCacheOptions option
    \<Rightarrow> string option \<Rightarrow> string option
    \<Rightarrow> (error + ArtifactCacheEntry option) \<times> event list" where
  "getCacheEntry w keys paths options blobContainerName connectionString =
     (if truthy blobContainerName \<and> truthy connectionString
      then (getCacheEntryBlob w (stringOf connectionString) (stringOf blobContainerName)
              keys paths, [])
      else
        case getCacheEntryResponse w keys paths options of
          Inl e \<Rightarrow> (Inl e, [])
        | Inr response \<Rightarrow>
            if statusCode response = 204 then (Inr None, [])
            else if \<not> isSuccessStatusCode w (Some (statusCode response))
            then (Inl (ServiceResponded (statusCode response)), [])
            else
              let cacheResult = result response;
                  cacheDownloadUrl = Option.bind cacheResult archiveLocation
              in if \<not> truthy cacheDownloadUrl then (Inl CacheNotFound, [])
                 else (Inr cacheResult,
                       [AddMask (stringOf cacheDownloadUrl), Debug ''Cache Result:'',
                        DebugJson cacheResult]))"

section \<open>Download\<close>

definition noArchiveLocation :: string where
  "noArchiveLocation = ''https://NoArchiveLocationFound.com''"

text \<open>
  \<open>downloadCache\<close>: the first \<open>if\<close> has no \<open>else\<close>, so when the storage SDK download
  returns, control reaches the second \<open>if\<close>/\<open>else\<close>. An awaited helper that throws ends
  the function.
\<close>

definition downloadCache ::
  "world \<Rightarrow> ArtifactCacheEntry \<Rightarrow> string \<Rightarrow> DownloadOptions option
    \<Rightarrow> string option \<Rightarrow> string option \<Rightarrow> (error + unit) \<times> event list" where
  "downloadCache w cacheEntry archivePath options blobContainerName connectionString =
     (let archiveLocation' =
            (case archiveLocation cacheEntry of None \<Rightarrow> noArchiveLocation | Some l \<Rightarrow> l)
      in case url_hostname w archiveLocation' of
           None \<Rightarrow> (Inl InvalidURL, [])
         | Some hostname \<Rightarrow>
             let downloadOptions = getDownloadOptions w options;
                 (sdk, events) =
                   (if useAzureSdk downloadOptions = Some True
                       \<and> suffix ''.blob.core.windows.net'' hostname
                    then (downloadCacheStorageSDK w archiveLocation' archivePath downloadOptions,
                          [DownloadCacheStorageSDK archiveLocation' archivePath])
                    else (Inr (), []))
             in case sdk of
                  Inl e \<Rightarrow> (Inl e, events)
                | Inr _ \<Rightarrow>
                    if truthy blobContainerName \<and> truthy connectionString
                       \<and> truthy (cacheKey cacheEntry)
                    then (downloadCacheBlobStorage w (stringOf (cacheKey cacheEntry)) archivePath
                            downloadOptions (stringOf blobContainerName)
                            (stringOf connectionString),
                          events @ [DownloadCacheBlobStorage (stringOf (cacheKey cacheEntry))
                            archivePath (stringOf blobContainerName)
                            (stringOf connectionString)])
                    else (downloadCacheHttpClient w archiveLocation' archivePath,
                          events @ [DownloadCacheHttpClient archiveLocation' archivePath]))"

section \<open>Reserve\<close>

text \<open>
  Modelled from the spec: \<open>retryTypedResponse\<close> of \<open>./requestUtils\<close>, which is not among
  the sources, with the three notions it rests on. The spec gives the retry policy of
  every call to the cache service: a response with a 5xx status and a recoverable
  transport error are retried, any other error stops at once, the number of attempts
  is bounded, and on exhaustion the last error surfaces to the caller; a response with
  any other status is handed to the caller (the callers test the status themselves). A
  missing base URL is fatal and not retried.
\<close>

text \<open>Modelled from the spec: the statuses of "HTTP 5xx responses".\<close>

definition isServerErrorStatusCode :: "int \<Rightarrow> bool" where
  "isServerErrorStatusCode statusCode' = (500 \<le> statusCode' \<and> statusCode' \<le> 599)"

text \<open>
  Modelled from the spec: the retryable conditions. Of the errors only those thrown by
  the HTTP client can be recoverable; the error of \<open>getCacheApiUrl\<close> is not.
\<close>

definition shouldRetry :: "world \<Rightarrow> error + 'a TypedResponse \<Rightarrow> bool" where
  "shouldRetry w outcome =
     (case outcome of
        Inl (External code) \<Rightarrow> isRecoverableError w code
      | Inl _ \<Rightarrow> False
      | Inr response \<Rightarrow> isServerErrorStatusCode (statusCode response))"

text \<open>
  Modelled from the spec: the last error, which surfaces on exhaustion: the error that
  the last attempt threw, or the transport error of its 5xx response.
\<close>

definition lastError :: "error + 'a TypedResponse \<Rightarrow> error + 'a TypedResponse" where
  "lastError outcome =
     (case outcome of
        Inl e \<Rightarrow> Inl e
      | Inr response \<Rightarrow> Inl (TransportError (statusCode response)))"

text \<open>
  Modelled from the spec: the retry itself. \<open>method attempt\<close> is what the call number
  \<open>attempt\<close> of the thunk returns or throws, and \<open>retries\<close> is the number of attempts that
  may follow this one.
\<close>

fun retryTypedResponse ::
  "world \<Rightarrow> (nat \<Rightarrow> error + 'a TypedResponse) \<Rightarrow> nat \<Rightarrow> nat \<Rightarrow> error + 'a TypedResponse" where
  "retryTypedResponse w method attempt 0 =
     (let outcome = method attempt
      in if shouldRetry w outcome then lastError outcome else outcome)"
| "retryTypedResponse w method attempt (Suc retries) =
     (let outcome = method attempt
      in if shouldRetry w outcome then retryTypedResponse w method (Suc attempt) retries
         else outcome)"

text \<open>
  The response that \<open>reserveCache\<close> awaits on the HTTP path:
  \<open>retryTypedResponse('reserveCache', async () => httpClient.postJson(getCacheApiUrl('caches'), reserveCacheRequest))\<close>.
  The thunk evaluates \<open>getCacheApiUrl\<close> at each of its calls.
\<close>

definition reserveCacheResponse ::
  "world \<Rightarrow> string \<Rightarrow> string list \<Rightarrow> InternalCacheOptions option
    \<Rightarrow> error + int TypedResponse" where
  "reserveCacheResponse w key paths options =
     (let version = getCacheVersion w paths (Option.bind options compressionMethod);
          reserveCacheRequest =
            \<lparr>requestKey = key, requestVersion = version,
             requestCacheSize = Option.bind options cacheSize\<rparr>
      in retryTypedResponse w
           (\<lambda>attempt. case getCacheApiUrl w ''caches'' of
                         Inl e \<Rightarrow> Inl e
                       | Inr url \<Rightarrow> postJson_reserve w url reserveCacheRequest attempt)
           0 (maxRetries w))"

definition reserveCache ::
  "world \<Rightarrow> string \<Rightarrow> string list \<Rightarrow> InternalCacheOptions option
    \<Rightarrow> string option \<Rightarrow> string option \<Rightarrow> error + int TypedResponse" where
  "reserveCache w key paths options blobContainerName connectionString =
     (if truthy blobContainerName \<and> truthy connectionString
      then Inr \<lparr>statusCode = 0, result = None, headers = []\<rparr>
      else reserveCacheResponse w key paths options)"

section \<open>Upload\<close>

text \<open>
  \<open>getCacheApiUrl(`caches/${cacheId.toString()}`)\<close>, the URL of a reserved cache, as
  \<open>uploadFile\<close> and \<open>commitCache\<close> compute it.
\<close>

definition cacheResourceUrl :: "world \<Rightarrow> int \<Rightarrow> error + string" where
  "cacheResourceUrl w cacheId = getCacheApiUrl w (''caches/'' @ numberToString w cacheId)"

definition uploadChunk :: "world \<Rightarrow> string \<Rightarrow> int \<Rightarrow> int \<Rightarrow> error + unit" where
  "uploadChunk w resourceUrl start end' =
     (case sendStream_retried w resourceUrl start end' of
        Inl e \<Rightarrow> Inl e
      | Inr status \<Rightarrow>
          if \<not> isSuccessStatusCode w status then Inl (ChunkResponded status) else Inr ())"

definition uploadFileBlob ::
  "world \<Rightarrow> string \<Rightarrow> string \<Rightarrow> string \<Rightarrow> string \<Rightarrow> int \<Rightarrow> error + unit" where
  "uploadFileBlob w blobContainerName connectionString archivePath key concurrency =
     (case uploadStream w connectionString blobContainerName key archivePath concurrency of
        Inl e \<Rightarrow> Inl (UploadFailedBecause e)
      | Inr _ \<Rightarrow> Inr ())"

text \<open>
  The workers of \<open>uploadFile\<close> are the promises of
  \<open>parallelUploads.map(async () => { while (offset < fileSize) { ... } })\<close>. They run on
  one thread and share the cursor \<open>offset\<close>; a worker gives up control only at
  \<open>await uploadChunk(...)\<close>. A worker is waiting for the upload of a range, has left its
  loop, or has thrown.
\<close>

datatype worker = Uploading int int | Finished | Rejected error

record pool =
  offset :: int
  workers :: "worker list"
  issued :: "(int \<times> int) list"

text \<open>
  The numbers \<open>offset\<close>, \<open>fileSize\<close>, \<open>chunkSize\<close> and \<open>end\<close> are IEEE-754 doubles, and
  \<open>+\<close> and \<open>-\<close> return the double nearest to the exact result, the one with the even
  significand when two are equally near. A double holds every integer up to \<open>2^53\<close> in
  absolute value; a larger one has \<open>bitLength\<close> binary digits of which it keeps the
  leading 53, so it is a multiple of \<open>2 ^ (bitLength x - 53)\<close>. A result that rounds to
  \<open>2^1024\<close> or beyond is \<open>Infinity\<close>, for which \<open>2^1024\<close> stands here (it is above every
  double, as \<open>Infinity\<close> is).
\<close>

function bitLength :: "int \<Rightarrow> nat" where
  "bitLength n = (if n \<le> 0 then 0 else Suc (bitLength (n div 2)))"
  by pat_completeness auto
termination by (relation "measure nat") auto

declare bitLength.simps [simp del]

definition roundTiesToEven :: "int \<Rightarrow> int \<Rightarrow> int" where
  "roundTiesToEven q x =
     (let below = (x div q) * q; rest = x mod q
      in if 2 * rest < q \<or> (2 * rest = q \<and> even (x div q)) then below else below + q)"

definition double :: "int \<Rightarrow> int" where
  "double x =
     (if \<bar>x\<bar> \<le> 2 ^ 53 then x
      else
        let y = roundTiesToEven (2 ^ (bitLength \<bar>x\<bar> - 53)) x
        in if 2 ^ 1024 \<le> y then 2 ^ 1024
           else if y \<le> - (2 ^ 1024) then - (2 ^ 1024)
           else y)"

text \<open>
  One pass of a worker from the test of its \<open>while\<close> to the next \<open>await\<close>: it leaves
  the loop, or takes the range at the cursor, advances the cursor by \<open>maxChunkSize\<close> and
  calls \<open>uploadChunk\<close>. Each \<open>+\<close> and \<open>-\<close> of the source is rounded:
  \<open>fileSize - offset\<close>, \<open>offset + chunkSize\<close>, \<open>\<dots> - 1\<close> and \<open>offset += maxChunkSize\<close>.
\<close>

definition claimChunk :: "int \<Rightarrow> int \<Rightarrow> pool \<Rightarrow> worker \<times> pool" where
  "claimChunk fileSize maxChunkSize p =
     (if offset p < fileSize
      then
        let chunkSize = min (double (fileSize - offset p)) maxChunkSize;
            start = offset p;
            end' = double (double (offset p + chunkSize) - 1)
        in (Uploading start end',
            p\<lparr>offset := double (offset p + maxChunkSize),
              issued := issued p @ [(start, end')]\<rparr>)
      else (Finished, p))"

text \<open>\<open>map\<close> starts the workers one after the other; each runs up to its first \<open>await\<close>.\<close>

fun startWorkers :: "int \<Rightarrow> int \<Rightarrow> nat \<Rightarrow> pool \<Rightarrow> pool" where
  "startWorkers fileSize maxChunkSize 0 p = p"
| "startWorkers fileSize maxChunkSize (Suc n) p =
     (let (wk, p') = claimChunk fileSize maxChunkSize p
      in startWorkers fileSize maxChunkSize n (p'\<lparr>workers := workers p' @ [wk]\<rparr>))"

text \<open>
  The awaited upload of worker \<open>i\<close> settles: the worker throws when \<open>uploadChunk\<close>
  threw, and goes round its loop again otherwise.
\<close>

definition resume ::
  "(int \<Rightarrow> int \<Rightarrow> error + unit) \<Rightarrow> int \<Rightarrow> int \<Rightarrow> nat \<Rightarrow> pool \<Rightarrow> pool" where
  "resume upload fileSize maxChunkSize i p =
     (case workers p ! i of
        Uploading start end' \<Rightarrow>
          (case upload start end' of
             Inl e \<Rightarrow> p\<lparr>workers := (workers p)[i := Rejected e]\<rparr>
           | Inr _ \<Rightarrow>
               let (wk, p') = claimChunk fileSize maxChunkSize p
               in p'\<lparr>workers := (workers p')[i := wk]\<rparr>)
      | _ \<Rightarrow> p)"

fun isUploading :: "worker \<Rightarrow> bool" where
  "isUploading (Uploading _ _) = True"
| "isUploading _ = False"

fun firstRejected :: "worker list \<Rightarrow> error option" where
  "firstRejected [] = None"
| "firstRejected (Rejected e # ws) = Some e"
| "firstRejected (_ # ws) = firstRejected ws"

text \<open>
  \<open>Promise.all\<close>: rejected as soon as one worker has thrown, fulfilled when every worker
  has left its loop, pending otherwise.
\<close>

definition settled :: "pool \<Rightarrow> (error + unit) option" where
  "settled p =
     (case firstRejected (workers p) of
        Some e \<Rightarrow> Some (Inl e)
      | None \<Rightarrow> if list_all (\<lambda>wk. wk = Finished) (workers p) then Some (Inr ()) else None)"

text \<open>The workers that wait for an upload, by index.\<close>

definition inflight :: "pool \<Rightarrow> nat list" where
  "inflight p = filter (\<lambda>i. isUploading (workers p ! i)) [0..<length (workers p)]"

text \<open>
  The order in which the uploads settle is not fixed by the program. A schedule gives
  it: the number \<open>k\<close> picks, among the workers that wait, the one whose upload settles
  next. The pool runs until \<open>Promise.all\<close> settles; \<open>None\<close> means that it is still
  pending when the schedule ends. The outcome of an upload is a function of its range:
  with a positive chunk size no range is claimed twice, so this fixes nothing that the
  schedule and the function together cannot express. What the remaining workers do
  after \<open>Promise.all\<close> has rejected is not part of the run: \<open>uploadFile\<close> has thrown by
  then.
\<close>

fun runPool ::
  "(int \<Rightarrow> int \<Rightarrow> error + unit) \<Rightarrow> int \<Rightarrow> int \<Rightarrow> nat list \<Rightarrow> pool
    \<Rightarrow> (error + unit) option \<times> pool" where
  "runPool upload fileSize maxChunkSize [] p = (settled p, p)"
| "runPool upload fileSize maxChunkSize (k # ks) p =
     (case settled p of
        Some r \<Rightarrow> (Some r, p)
      | None \<Rightarrow>
          runPool upload fileSize maxChunkSize ks
            (resume upload fileSize maxChunkSize
               (inflight p ! (k mod length (inflight p))) p))"

text \<open>
  \<open>await Promise.all(parallelUploads.map(async () => { ... }))\<close> in \<open>uploadFile\<close>, with
  \<open>offset\<close> at 0: how it settles, and the ranges for which \<open>uploadChunk\<close> was called up
  to then, in the order of the calls.
\<close>

definition uploadChunks ::
  "(int \<Rightarrow> int \<Rightarrow> error + unit) \<Rightarrow> int \<Rightarrow> int \<Rightarrow> nat \<Rightarrow> nat list
    \<Rightarrow> (error + unit) option \<times> (int \<times> int) list" where
  "uploadChunks upload fileSize maxChunkSize concurrency schedule =
     (let started = startWorkers fileSize maxChunkSize concurrency
            \<lparr>offset = 0, workers = [], issued = []\<rparr>;
          (outcome, p) = runPool upload fileSize maxChunkSize schedule started
      in (outcome, issued p))"

text \<open>
  \<open>uploadFile\<close>. \<open>new Array(concurrency)\<close> throws unless the length is an integer from 0
  to \<open>2^32 - 1\<close>. The \<open>finally\<close> block closes the descriptor when \<open>Promise.all\<close> has
  settled.
\<close>

definition uploadFile ::
  "world \<Rightarrow> nat list \<Rightarrow> int \<Rightarrow> string \<Rightarrow> string \<Rightarrow> UploadOptions option
    \<Rightarrow> string option \<Rightarrow> string option \<Rightarrow> (error + unit) option \<times> event list" where
  "uploadFile w schedule cacheId archivePath key options blobContainerName connectionString =
     (let uploadOptions = getUploadOptions w options
      in case assertDefined w ''uploadConcurrency'' (uploadConcurrency uploadOptions) of
           Inl e \<Rightarrow> (Some (Inl e), [])
         | Inr concurrency \<Rightarrow>
         (case assertDefined w ''uploadChunkSize'' (uploadChunkSize uploadOptions) of
           Inl e \<Rightarrow> (Some (Inl e), [])
         | Inr maxChunkSize \<Rightarrow>
           if concurrency < 0 \<or> 2 ^ 32 \<le> concurrency then (Some (Inl InvalidArrayLength), [])
           else if truthy blobContainerName \<and> truthy connectionString
           then (Some (uploadFileBlob w (stringOf blobContainerName) (stringOf connectionString)
                         archivePath key concurrency),
                 [UploadStream (stringOf connectionString) (stringOf blobContainerName) key
                    archivePath concurrency])
           else
             (case getArchiveFileSizeInBytes w archivePath of
                Inl e \<Rightarrow> (Some (Inl e), [])
              | Inr fileSize \<Rightarrow>
              (case cacheResourceUrl w cacheId of
                Inl e \<Rightarrow> (Some (Inl e), [])
              | Inr resourceUrl \<Rightarrow>
              (case openSync w archivePath of
                Inl e \<Rightarrow> (Some (Inl e), [])
              | Inr fd \<Rightarrow>
                  let (outcome, ranges) = uploadChunks (uploadChunk w resourceUrl) fileSize
                        maxChunkSize (nat concurrency) schedule;
                      uploads = map (\<lambda>(start, end'). UploadChunk resourceUrl start end') ranges
                  in (outcome,
                      if outcome = None then uploads else uploads @ [CloseSync fd]))))))"



section \<open>Auxiliary notions for the statements\<close>

text \<open>
  The string that the spec has digested for a path list \<open>P\<close> and a compression method
  \<open>m\<close>: every path followed by \<open>|\<close>, then the token of the method followed by \<open>|\<close> when a
  method is given and is not the gzip default (an empty token counts as not given),
  then the salt \<open>1.0\<close>.
\<close>

definition versionString :: "string list \<Rightarrow> string option \<Rightarrow> string" where
  "versionString P m =
     concat (map (\<lambda>c. c @ ''|'')
       (P @ (case m of None \<Rightarrow> [] | Some t \<Rightarrow> if t = [] \<or> t = ''gzip'' then [] else [t])))
     @ ''1.0''"

text \<open>
  SHA-256 as FIPS 180-4 defines it, for a message given as a list of bytes, with the
  digest in lowercase hexadecimal: what
  \<open>crypto.createHash('sha256').update(s).digest('hex')\<close> computes for a string \<open>s\<close>.
\<close>

text \<open>Words of 32 bits are the integers from \<open>0\<close> to \<open>2^32 - 1\<close>.\<close>

definition add32 :: "int \<Rightarrow> int \<Rightarrow> int" where
  "add32 x y = (x + y) mod 2 ^ 32"

definition rotr :: "nat \<Rightarrow> int \<Rightarrow> int" where
  "rotr n x = x div 2 ^ n + (x mod 2 ^ n) * 2 ^ (32 - n)"

definition shr :: "nat \<Rightarrow> int \<Rightarrow> int" where
  "shr n x = x div 2 ^ n"

definition Ch :: "int \<Rightarrow> int \<Rightarrow> int \<Rightarrow> int" where
  "Ch x y z = (x AND y) XOR ((4294967295 - x) AND z)"

definition Maj :: "int \<Rightarrow> int \<Rightarrow> int \<Rightarrow> int" where
  "Maj x y z = (x AND y) XOR (x AND z) XOR (y AND z)"

definition Sigma0 :: "int \<Rightarrow> int" where
  "Sigma0 x = rotr 2 x XOR rotr 13 x XOR rotr 22 x"

definition Sigma1 :: "int \<Rightarrow> int" where
  "Sigma1 x = rotr 6 x XOR rotr 11 x XOR rotr 25 x"

definition sigma0 :: "int \<Rightarrow> int" where
  "sigma0 x = rotr 7 x XOR rotr 18 x XOR shr 3 x"

definition sigma1 :: "int \<Rightarrow> int" where
  "sigma1 x = rotr 17 x XOR rotr 19 x XOR shr 10 x"

text \<open>
  The round constants and the initial hash value: the first 32 bits of the fractional
  parts of the cube roots of the first 64 primes, and of the square roots of the first
  8 primes.
\<close>

definition K256 :: "int list" where
  "K256 =
    [1116352408, 1899447441, 3049323471, 3921009573, 961987163, 1508970993,
     2453635748, 2870763221, 3624381080, 310598401, 607225278, 1426881987,
     1925078388, 2162078206, 2614888103, 3248222580, 3835390401, 4022224774,
     264347078, 604807628, 770255983, 1249150122, 1555081692, 1996064986,
     2554220882, 2821834349, 2952996808, 3210313671, 3336571891, 3584528711,
     113926993, 338241895, 666307205, 773529912, 1294757372, 1396182291,
     1695183700, 1986661051, 2177026350, 2456956037, 2730485921, 2820302411,
     3259730800, 3345764771, 3516065817, 3600352804, 4094571909, 275423344,
     430227734, 506948616, 659060556, 883997877, 958139571, 1322822218,
     1537002063, 1747873779, 1955562222, 2024104815, 2227730452, 2361852424,
     2428436474, 2756734187, 3204031479, 3329325298]"

definition H256 :: "int list" where
  "H256 =
    [1779033703, 3144134277, 1013904242, 2773480762, 1359893119, 2600822924,
     528734635, 1541459225]"

text \<open>
  Padding: the bit 1, zeros up to 56 bytes modulo 64, and the length of the message in
  bits as 8 bytes; then the bytes are read as big-endian words.
\<close>

definition be64 :: "int \<Rightarrow> int list" where
  "be64 n = map (\<lambda>i. (n div 256 ^ (7 - i)) mod 256) [0..<8]"

definition pad :: "int list \<Rightarrow> int list" where
  "pad bytes =
     bytes @ [128] @ replicate ((119 - length bytes mod 64) mod 64) 0
       @ be64 (8 * int (length bytes))"

fun be32 :: "int list \<Rightarrow> int list" where
  "be32 (a # b # c # d # rest) = (((a * 256 + b) * 256 + c) * 256 + d) # be32 rest"
| "be32 _ = []"

text \<open>The message schedule of a block of 16 words, extended by \<open>n\<close> words.\<close>

fun schedule :: "nat \<Rightarrow> int list \<Rightarrow> int list" where
  "schedule 0 ws = ws"
| "schedule (Suc n) ws =
     (let t = length ws
      in schedule n
           (ws @ [add32 (add32 (sigma1 (ws ! (t - 2))) (ws ! (t - 7)))
                        (add32 (sigma0 (ws ! (t - 15))) (ws ! (t - 16)))]))"

text \<open>One round on the eight working variables, and the compression of one block.\<close>

fun round256 :: "int list \<Rightarrow> int \<times> int \<Rightarrow> int list" where
  "round256 [a, b, c, d, e, f, g, h] (k, w) =
     (let t1 = add32 (add32 (add32 h (Sigma1 e)) (add32 (Ch e f g) k)) w;
          t2 = add32 (Sigma0 a) (Maj a b c)
      in [add32 t1 t2, a, b, c, add32 d t1, e, f, g])"
| "round256 st _ = st"

definition compress :: "int list \<Rightarrow> int list \<Rightarrow> int list" where
  "compress hs block =
     map2 add32 hs (foldl round256 hs (zip K256 (schedule 48 block)))"

fun blocks :: "int list \<Rightarrow> int list \<Rightarrow> int list" where
  "blocks hs [] = hs"
| "blocks hs ws = blocks (compress hs (take 16 ws)) (drop 16 ws)"

text \<open>The digest in lowercase hexadecimal, eight digits for each word.\<close>

definition hexdigit :: "int \<Rightarrow> char" where
  "hexdigit n = ''0123456789abcdef'' ! nat n"

definition hex32 :: "int \<Rightarrow> string" where
  "hex32 x = map (\<lambda>i. hexdigit ((x div 16 ^ (7 - i)) mod 16)) [0..<8]"

definition SHA256_hex :: "string \<Rightarrow> string" where
  "SHA256_hex s =
     concat (map hex32 (blocks H256 (be32 (pad (map (\<lambda>c. int (of_char c)) s)))))"

text \<open>The iterator that yields the blobs of a list in order and ends without throwing.\<close>

fun listing :: "BlobItem list \<Rightarrow> blob_iter" where
  "listing [] = Done"
| "listing (b # bs) = Yield b (listing bs)"

text \<open>
  The partition of a file of \<open>F\<close> bytes into ranges of at most \<open>C\<close> bytes, in the
  words of the spec: \<open>ceil(F/C)\<close> ranges, the \<open>k\<close>-th from byte \<open>k * C\<close> to the byte
  before \<open>min F ((k + 1) * C)\<close>, both inclusive.
\<close>

definition chunkRanges :: "int \<Rightarrow> int \<Rightarrow> (int \<times> int) list" where
  "chunkRanges F C =
     map (\<lambda>k. (int k * C, min F (int k * C + C) - 1)) [0..<nat ((F + C - 1) div C)]"

text \<open>
  What it means for a list of inclusive ranges to partition a file of \<open>F\<close> bytes into
  pieces of at most \<open>C\<close> bytes: every range is non-empty and at most \<open>C\<close> bytes long,
  each starts right after the one before it, no two overlap, and together they cover
  the bytes \<open>0\<close> to \<open>F - 1\<close>.
\<close>

definition isPartition :: "(int \<times> int) list \<Rightarrow> int \<Rightarrow> int \<Rightarrow> bool" where
  "isPartition rs F C =
     ((\<forall>k < length rs. fst (rs ! k) \<le> snd (rs ! k) \<and> snd (rs ! k) - fst (rs ! k) + 1 \<le> C)
      \<and> (\<forall>k. Suc k < length rs \<longrightarrow> fst (rs ! Suc k) = snd (rs ! k) + 1)
      \<and> (\<forall>i j. i < j \<and> j < length rs
            \<longrightarrow> {fst (rs ! i)..snd (rs ! i)} \<inter> {fst (rs ! j)..snd (rs ! j)} = {})
      \<and> (\<Union>(s, e) \<in> set rs. {s..e}) = {0..F - 1})"

text \<open>
  The last byte of the range that a worker claims at the cursor \<open>off\<close>, as \<open>claimChunk\<close>
  computes it.
\<close>

definition rangeEnd :: "int \<Rightarrow> int \<Rightarrow> int \<Rightarrow> int" where
  "rangeEnd F C off = double (double (off + min (double (F - off)) C) - 1)"

text \<open>
  What the call number \<open>attempt\<close> of the thunk of \<open>reserveCache\<close> returns or throws:
  the outcome of that call of \<open>httpClient.postJson\<close>, or the error of \<open>getCacheApiUrl\<close>.
\<close>

definition reserveCacheAttempt ::
  "world \<Rightarrow> string \<Rightarrow> string list \<Rightarrow> InternalCacheOptions option \<Rightarrow> nat
    \<Rightarrow> error + int TypedResponse" where
  "reserveCacheAttempt w key paths options attempt =
     (case getCacheApiUrl w ''caches'' of
        Inl e \<Rightarrow> Inl e
      | Inr url \<Rightarrow>
          postJson_reserve w url
            \<lparr>requestKey = key,
             requestVersion = getCacheVersion w paths (Option.bind options compressionMethod),
             requestCacheSize = Option.bind options cacheSize\<rparr>
            attempt)"

text \<open>The pool before any worker has started.\<close>

definition emptyPool :: pool where
  "emptyPool = \<lparr>offset = 0, workers = [], issued = []\<rparr>"

text \<open>
  Invariants of the pool of workers. The cursor: the ranges claimed so far are a prefix
  of the partition, the cursor stands at the start of the next one while one is left
  and at or past the end of the file afterwards, and a worker has left its loop only
  when the cursor is at or past the end of the file.
\<close>

definition cursorInv :: "int \<Rightarrow> int \<Rightarrow> pool \<Rightarrow> bool" where
  "cursorInv F C p =
     (length (issued p) \<le> length (chunkRanges F C)
      \<and> (length (issued p) < length (chunkRanges F C)
            \<longrightarrow> offset p = int (length (issued p)) * C)
      \<and> (length (issued p) = length (chunkRanges F C) \<longrightarrow> F \<le> offset p)
      \<and> issued p = take (length (issued p)) (chunkRanges F C)
      \<and> (Finished \<in> set (workers p) \<longrightarrow> F \<le> offset p))"

text \<open>
  The uploads: a worker waits only for a range that was claimed; a claimed range has
  been acknowledged, or a worker still waits for it, or some worker has thrown; a worker
  has thrown only with the error of a failed upload of a claimed range.
\<close>

definition ackInv :: "(int \<Rightarrow> int \<Rightarrow> error + unit) \<Rightarrow> pool \<Rightarrow> bool" where
  "ackInv upload p =
     ((\<forall>s e. Uploading s e \<in> set (workers p) \<longrightarrow> (s, e) \<in> set (issued p))
      \<and> (\<forall>(s, e) \<in> set (issued p).
            upload s e = Inr () \<or> Uploading s e \<in> set (workers p)
            \<or> (\<exists>err. Rejected err \<in> set (workers p)))
      \<and> (\<forall>err. Rejected err \<in> set (workers p)
            \<longrightarrow> (\<exists>(s, e) \<in> set (issued p). upload s e = Inl err)))"

text \<open>What is left to do: the ranges still to claim and the uploads still awaited.\<close>

definition pending :: "int \<Rightarrow> int \<Rightarrow> pool \<Rightarrow> nat" where
  "pending F C p =
     (length (chunkRanges F C) - length (issued p)) + length (filter isUploading (workers p))"

text \<open>The entry that \<open>getCacheEntryBlob\<close> builds from a blob whose name matched.\<close>

definition blobEntry :: "BlobItem \<Rightarrow> ArtifactCacheEntry" where
  "blobEntry blob =
     \<lparr>cacheKey = Some (name blob), creationTime = Some (lastModified blob),
      archiveLocation = None\<rparr>"

section \<open>A sample environment\<close>

text \<open>
  An environment on which the functions above can be evaluated: the cache service
  answers every lookup with status 204, accepts every chunk and every commit with
  status 200 and reserves cache 7 at the first attempt (two more could follow; no error
  is recoverable); the archive has 10 bytes; the container is empty;
  the upload options are 2 workers and chunks of 4 bytes. The digest, the URL parser and
  the string conversions are stand-ins.
\<close>

definition sampleWorld :: world where
  "sampleWorld =
     \<lparr>ACTIONS_CACHE_URL = Some ''https://cache.example/'',
      sha256_hex = (\<lambda>s. s),
      encodeURIComponent = (\<lambda>s. s),
      url_hostname = (\<lambda>s. Some ''cache.example''),
      isSuccessStatusCode = (\<lambda>status. case status of None \<Rightarrow> False
         | Some c \<Rightarrow> 200 \<le> c \<and> c < 300),
      listBlobsFlat = (\<lambda>conn container. Done),
      getJson_retried = (\<lambda>url. Inr \<lparr>statusCode = 204, result = None, headers = []\<rparr>),
      postJson_reserve =
        (\<lambda>url request attempt. Inr \<lparr>statusCode = 201, result = Some 7, headers = []\<rparr>),
      maxRetries = 2,
      isRecoverableError = (\<lambda>code. False),
      getDownloadOptions = (\<lambda>options. case options of
           None \<Rightarrow> \<lparr>useAzureSdk = Some True, downloadConcurrency = Some 8,
                     timeoutInMs = Some 30000\<rparr>
         | Some opts \<Rightarrow> opts),
      downloadCacheStorageSDK = (\<lambda>location path options. Inr ()),
      downloadCacheBlobStorage = (\<lambda>k path options container conn. Inr ()),
      downloadCacheHttpClient = (\<lambda>location path. Inr ()),
      getUploadOptions = (\<lambda>options. case options of
           None \<Rightarrow> \<lparr>uploadConcurrency = Some 2, uploadChunkSize = Some 4\<rparr>
         | Some opts \<Rightarrow> opts),
      assertDefined = (\<lambda>what v. case v of None \<Rightarrow> Inl (External what) | Some n \<Rightarrow> Inr n),
      numberToString = (\<lambda>n. ''7''),
      getArchiveFileSizeInBytes = (\<lambda>path. Inr 10),
      openSync = (\<lambda>path. Inr 3),
      sendStream_retried = (\<lambda>url start end'. Inr (Some 200)),
      uploadStream = (\<lambda>conn container k path concurrency. Inr ()),
      postJson_commit_retried =
        (\<lambda>url size. Inr \<lparr>statusCode = 200, result = None, headers = []\<rparr>)\<rparr>"

text \<open>The service finds an entry and answers 200 with its download location.\<close>

definition foundWorld :: world where
  "foundWorld = sampleWorld\<lparr>getJson_retried := \<lambda>url.
     Inr \<lparr>statusCode = 200,
          result = Some \<lparr>cacheKey = Some ''k'', creationTime = Some ''2024-01-01'',
                         archiveLocation = Some ''https://store.example/archive''\<rparr>,
          headers = []\<rparr>\<rparr>"

text \<open>The archive locations are on the managed blob storage domain.\<close>

definition azureWorld :: world where
  "azureWorld = sampleWorld\<lparr>url_hostname := \<lambda>s. Some ''account.blob.core.windows.net''\<rparr>"

text \<open>The service answers every chunk upload with status 500.\<close>

definition failingWorld :: world where
  "failingWorld = sampleWorld\<lparr>sendStream_retried := \<lambda>url start end'. Inr (Some 500)\<rparr>"

text \<open>The digest of the environment is SHA-256.\<close>

definition nodeWorld :: world where
  "nodeWorld = sampleWorld\<lparr>sha256_hex := SHA256_hex\<rparr>"

text \<open>The service answers every reservation with status 409: the key is already reserved.\<close>

definition conflictWorld :: world where
  "conflictWorld = sampleWorld\<lparr>postJson_reserve := \<lambda>url request attempt.
     Inr \<lparr>statusCode = 409, result = None, headers = []\<rparr>\<rparr>"

text \<open>The service answers every reservation with status 500.\<close>

definition brokenWorld :: world where
  "brokenWorld = sampleWorld\<lparr>postJson_reserve := \<lambda>url request attempt.
     Inr \<lparr>statusCode = 500, result = None, headers = []\<rparr>\<rparr>"

text \<open>The service answers the first reservation with status 503 and the next ones with 201.\<close>

definition recoveringWorld :: world where
  "recoveringWorld = sampleWorld\<lparr>postJson_reserve := \<lambda>url request attempt.
     if attempt = 0 then Inr \<lparr>statusCode = 503, result = None, headers = []\<rparr>
     else Inr \<lparr>statusCode = 201, result = Some 7, headers = []\<rparr>\<rparr>"

text \<open>The URL parser gives the host of the placeholder location.\<close>

definition placeholderWorld :: world where
  "placeholderWorld = sampleWorld\<lparr>url_hostname := \<lambda>s. Some ''noarchivelocationfound.com''\<rparr>"

section \<open>The sample environment, field by field\<close>

lemma sampleWorld_sel [simp]:
  "ACTIONS_CACHE_URL sampleWorld = Some ''https://cache.example/''"
  "sha256_hex sampleWorld = (\<lambda>s. s)"
  "encodeURIComponent sampleWorld = (\<lambda>s. s)"
  "url_hostname sampleWorld = (\<lambda>s. Some ''cache.example'')"
  "isSuccessStatusCode sampleWorld =
     (\<lambda>status. case status of None \<Rightarrow> False | Some c \<Rightarrow> 200 \<le> c \<and> c < 300)"
  "listBlobsFlat sampleWorld = (\<lambda>conn container. Done)"
  "getJson_retried sampleWorld =
     (\<lambda>url. Inr \<lparr>statusCode = 204, result = None, headers = []\<rparr>)"
  "postJson_reserve sampleWorld =
     (\<lambda>url request attempt. Inr \<lparr>statusCode = 201, result = Some 7, headers = []\<rparr>)"
  "maxRetries sampleWorld = 2"
  "isRecoverableError sampleWorld = (\<lambda>code. False)"
  "getDownloadOptions sampleWorld = (\<lambda>options. case options of
       None \<Rightarrow> \<lparr>useAzureSdk = Some True, downloadConcurrency = Some 8,
                 timeoutInMs = Some 30000\<rparr>
     | Some opts \<Rightarrow> opts)"
  "downloadCacheStorageSDK sampleWorld = (\<lambda>location path options. Inr ())"
  "downloadCacheBlobStorage sampleWorld = (\<lambda>k path options container conn. Inr ())"
  "downloadCacheHttpClient sampleWorld = (\<lambda>location path. Inr ())"
  "getUploadOptions sampleWorld = (\<lambda>options. case options of
       None \<Rightarrow> \<lparr>uploadConcurrency = Some 2, uploadChunkSize = Some 4\<rparr>
     | Some opts \<Rightarrow> opts)"
  "assertDefined sampleWorld =
     (\<lambda>what v. case v of None \<Rightarrow> Inl (External what) | Some n \<Rightarrow> Inr n)"
  "numberToString sampleWorld = (\<lambda>n. ''7'')"
  "getArchiveFileSizeInBytes sampleWorld = (\<lambda>path. Inr 10)"
  "openSync sampleWorld = (\<lambda>path. Inr 3)"
  "sendStream_retried sampleWorld = (\<lambda>url start end'. Inr (Some 200))"
  "uploadStream sampleWorld = (\<lambda>conn container k path concurrency. Inr ())"
  "postJson_commit_retried sampleWorld =
     (\<lambda>url size. Inr \<lparr>statusCode = 200, result = None, headers = []\<rparr>)"
  by (simp_all add: sampleWorld_def)

section \<open>Properties of the cache version\<close>

lemma takeWhile_bar: "c \<notin> set x \<Longrightarrow> takeWhile (\<lambda>d. d \<noteq> c) (x @ c # r) = x"
  by (induction x) auto

lemma dropWhile_bar: "c \<notin> set x \<Longrightarrow> dropWhile (\<lambda>d. d \<noteq> c) (x @ c # r) = c # r"
  by (induction x) auto

lemma join_Cons: "ys \<noteq> [] \<Longrightarrow> join sep (x # ys) = x @ sep @ join sep ys"
  by (cases ys) auto

lemma join_bar_inject:
  assumes "xs \<noteq> []" "ys \<noteq> []"
    and "\<forall>x \<in> set xs. c \<notin> set x" "\<forall>y \<in> set ys. c \<notin> set y"
    and "join [c] xs = join [c] ys"
  shows "xs = ys"
  using assms
proof (induction xs arbitrary: ys)
  case Nil
  then show ?case by simp
next
  case (Cons x xs)
  obtain y ys' where ys: "ys = y # ys'" using Cons.prems(2) by (cases ys) auto
  have x: "c \<notin> set x" and y: "c \<notin> set y" using Cons.prems ys by auto
  show ?case
  proof (cases "xs = []")
    case True
    show ?thesis
    proof (cases "ys' = []")
      case True
      with \<open>xs = []\<close> Cons.prems(5) ys show ?thesis by simp
    next
      case False
      then have "join [c] ys = y @ c # join [c] ys'" using ys by (simp add: join_Cons)
      with Cons.prems(5) \<open>xs = []\<close> have "x = y @ c # join [c] ys'" by simp
      with x show ?thesis by auto
    qed
  next
    case False
    then have jx: "join [c] (x # xs) = x @ c # join [c] xs" by (simp add: join_Cons)
    show ?thesis
    proof (cases "ys' = []")
      case True
      with Cons.prems(5) ys jx have "y = x @ c # join [c] xs" by simp
      with y show ?thesis by auto
    next
      case ne: False
      then have jy: "join [c] ys = y @ c # join [c] ys'" using ys by (simp add: join_Cons)
      from Cons.prems(5) jx jy have eq: "x @ c # join [c] xs = y @ c # join [c] ys'" by simp
      have "x = y" using arg_cong [OF eq, of "takeWhile (\<lambda>d. d \<noteq> c)"] x y
        by (simp add: takeWhile_bar)
      moreover have "join [c] xs = join [c] ys'"
        using arg_cong [OF eq, of "dropWhile (\<lambda>d. d \<noteq> c)"] x y
        by (simp add: dropWhile_bar)
      then have "xs = ys'" using Cons.IH [of ys'] False ne Cons.prems(3,4) ys by auto
      ultimately show ?thesis using ys by simp
    qed
  qed
qed

lemma versionComponents_inject:
  assumes "\<forall>p \<in> set P1 \<union> set P2. CHR ''|'' \<notin> set p"
    and "CHR ''|'' \<notin> set (stringOf m)"
    and "join ''|'' (versionComponents P1 m) = join ''|'' (versionComponents P2 m)"
  shows "P1 = P2"
proof -
  have "versionComponents P1 m = versionComponents P2 m"
  proof (rule join_bar_inject [where c = "CHR ''|''"])
    show "versionComponents P1 m \<noteq> []" "versionComponents P2 m \<noteq> []"
      by (simp_all add: versionComponents_def)
    show "\<forall>x\<in>set (versionComponents P1 m). CHR ''|'' \<notin> set x"
      using assms(1,2) by (auto simp: versionComponents_def versionSalt_def)
    show "\<forall>x\<in>set (versionComponents P2 m). CHR ''|'' \<notin> set x"
      using assms(1,2) by (auto simp: versionComponents_def versionSalt_def)
    show "join ''|'' (versionComponents P1 m) = join ''|'' (versionComponents P2 m)"
      by (rule assms(3))
  qed
  then show ?thesis by (simp add: versionComponents_def)
qed

text \<open>Joining with \<open>|\<close> a list that ends with the salt gives the string of the spec.\<close>

lemma join_snoc: "join sep (xs @ [s]) = concat (map (\<lambda>c. c @ sep) xs) @ s"
proof (induction xs)
  case Nil
  show ?case by simp
next
  case (Cons x xs)
  have "join sep (x # (xs @ [s])) = x @ sep @ join sep (xs @ [s])" by (rule join_Cons) simp
  with Cons show ?case by simp
qed

lemma join_versionComponents: "join ''|'' (versionComponents P m) = versionString P m"
proof (cases m)
  case None
  show ?thesis unfolding versionComponents_def versionString_def Let_def join_snoc None
    by (simp add: versionSalt_def)
next
  case (Some t)
  show ?thesis unfolding versionComponents_def versionString_def Let_def join_snoc Some
    by (simp add: versionSalt_def Gzip_def stringOf_def)
qed

text \<open>The digest has 64 characters, each a digit or a letter from \<open>a\<close> to \<open>f\<close>.\<close>

lemma length_round256: "length (round256 st kw) = length st"
  by (cases "(st, kw)" rule: round256.cases) (simp_all add: Let_def)

lemma length_foldl_round256: "length (foldl round256 st kws) = length st"
  by (induction kws arbitrary: st) (simp_all add: length_round256)

lemma length_compress: "length (compress hs block) = length hs"
  by (simp add: compress_def length_foldl_round256)

lemma length_blocks: "length (blocks hs ws) = length hs"
  by (induction hs ws rule: blocks.induct) (simp_all add: length_compress)

lemma hexdigit_lowercase: "hexdigit (x mod 16) \<in> set ''0123456789abcdef''"
proof -
  have "0 \<le> x mod 16" and "x mod 16 < 16" by simp_all
  then have "nat (x mod 16) < length ''0123456789abcdef''" by simp
  then show ?thesis unfolding hexdigit_def by (rule nth_mem)
qed

lemma length_hex32: "length (hex32 x) = 8"
  by (simp add: hex32_def)

lemma set_hex32: "set (hex32 x) \<subseteq> set ''0123456789abcdef''"
  unfolding hex32_def using hexdigit_lowercase by (auto simp del: set_simps)

lemma length_concat_hex32: "length (concat (map hex32 xs)) = 8 * length xs"
  by (induction xs) (simp_all add: length_hex32)

lemma SHA256_hex_format:
  "length (SHA256_hex s) = 64 \<and> set (SHA256_hex s) \<subseteq> set ''0123456789abcdef''"
proof -
  have "length (SHA256_hex s) = 8 * length H256"
    by (simp add: SHA256_hex_def length_concat_hex32 length_blocks)
  moreover have "length H256 = 8" by (simp add: H256_def)
  moreover have "set (SHA256_hex s) \<subseteq> set ''0123456789abcdef''"
    unfolding SHA256_hex_def using set_hex32 by (auto simp del: set_simps)
  ultimately show ?thesis by simp
qed

text \<open>Test vectors of the standard: the messages \<open>abc\<close>, the empty one, and one of two blocks.\<close>

lemma SHA256_hex_abc:
  "SHA256_hex ''abc'' = ''ba7816bf8f01cfea414140de5dae2223b00361a396177a9cb410ff61f20015ad''"
  by code_simp

lemma SHA256_hex_empty:
  "SHA256_hex [] = ''e3b0c44298fc1c149afbf4c8996fb92427ae41e4649b934ca495991b7852b855''"
  by code_simp

lemma SHA256_hex_two_blocks:
  "SHA256_hex ''abcdbcdecdefdefgefghfghighijhijkijkljklmklmnlmnomnopnopq''
     = ''248d6a61d20638b8e5c026930c3e6039a33ce45964ff2167f6ecedd419db06c1''"
  by code_simp

lemma SHA256_hex_version:
  "SHA256_hex ''/a|/b|zstd|1.0''
     = ''b2a8996727b35069431c9c0b9097aefca21825f5b20e1da4ba1dd559c0b3f736''"
  by code_simp

text \<open>
  C5: the version of a path list \<open>P\<close> and a compression method \<open>m\<close> is the digest of
  \<open>versionString P m\<close>: the paths, then the token of the method exactly when it is given
  and is not the gzip default, then the salt \<open>1.0\<close>, joined with \<open>|\<close>; so gzip and no
  method give the same version. The digest is the one of Node's \<open>crypto\<close>, a parameter of
  the model: when it is SHA-256, the version is the SHA-256 digest of that string, 64
  lowercase hexadecimal digits. Being a function, the version is determined by its
  arguments.
\<close>

theorem getCacheVersion_digest:
  "getCacheVersion w P m = sha256_hex w (versionString P m)
   \<and> (sha256_hex w = SHA256_hex
        \<longrightarrow> getCacheVersion w P m = SHA256_hex (versionString P m)
          \<and> length (getCacheVersion w P m) = 64
          \<and> set (getCacheVersion w P m) \<subseteq> set ''0123456789abcdef'')
   \<and> getCacheVersion w P (Some ''gzip'') = getCacheVersion w P None"
proof -
  have v: "getCacheVersion w P m = sha256_hex w (versionString P m)" for m
    by (simp only: getCacheVersion_def join_versionComponents)
  have g: "versionString P (Some ''gzip'') = versionString P None"
    by (simp add: versionString_def)
  have "sha256_hex w = SHA256_hex
        \<longrightarrow> getCacheVersion w P m = SHA256_hex (versionString P m)
          \<and> length (getCacheVersion w P m) = 64
          \<and> set (getCacheVersion w P m) \<subseteq> set ''0123456789abcdef''"
  proof
    assume "sha256_hex w = SHA256_hex"
    then have "getCacheVersion w P m = SHA256_hex (versionString P m)" by (simp only: v)
    with SHA256_hex_format [of "versionString P m"]
    show "getCacheVersion w P m = SHA256_hex (versionString P m)
          \<and> length (getCacheVersion w P m) = 64
          \<and> set (getCacheVersion w P m) \<subseteq> set ''0123456789abcdef''"
      by (simp only: simp_thms)
  qed
  with v [of m] v [of "Some ''gzip''"] v [of None] g show ?thesis by (simp only: simp_thms)
qed

theorem getCacheVersion_digest_witness:
  "getCacheVersion nodeWorld [''/a'', ''/b''] (Some ''zstd'')
     = ''b2a8996727b35069431c9c0b9097aefca21825f5b20e1da4ba1dd559c0b3f736''
   \<and> versionString [''/a'', ''/b''] (Some ''zstd'') = ''/a|/b|zstd|1.0''
   \<and> versionString [''/a'', ''/b''] (Some ''gzip'') = ''/a|/b|1.0''
   \<and> versionString [''/a'', ''/b''] None = ''/a|/b|1.0''
   \<and> getCacheVersion sampleWorld [''/a'', ''/b''] (Some ''gzip'') = ''/a|/b|1.0''"
proof -
  have node: "sha256_hex nodeWorld = SHA256_hex" by (simp add: nodeWorld_def)
  have z: "versionString [''/a'', ''/b''] (Some ''zstd'') = ''/a|/b|zstd|1.0''"
    by (simp add: versionString_def)
  have g: "versionString [''/a'', ''/b''] (Some ''gzip'') = ''/a|/b|1.0''"
    by (simp add: versionString_def)
  have n: "versionString [''/a'', ''/b''] None = ''/a|/b|1.0''"
    by (simp add: versionString_def)
  from getCacheVersion_digest [of nodeWorld "[''/a'', ''/b'']" "Some ''zstd''"] node
  have "getCacheVersion nodeWorld [''/a'', ''/b''] (Some ''zstd'')
      = SHA256_hex (versionString [''/a'', ''/b''] (Some ''zstd''))"
    by blast
  then have a: "getCacheVersion nodeWorld [''/a'', ''/b''] (Some ''zstd'')
      = ''b2a8996727b35069431c9c0b9097aefca21825f5b20e1da4ba1dd559c0b3f736''"
    by (simp only: z SHA256_hex_version)
  from getCacheVersion_digest [of sampleWorld "[''/a'', ''/b'']" "Some ''gzip''"]
  have "getCacheVersion sampleWorld [''/a'', ''/b''] (Some ''gzip'')
      = sha256_hex sampleWorld (versionString [''/a'', ''/b''] (Some ''gzip''))"
    by blast
  then have b: "getCacheVersion sampleWorld [''/a'', ''/b''] (Some ''gzip'') = ''/a|/b|1.0''"
    by (simp add: g)
  from a z g n b show ?thesis by (simp only: simp_thms)
qed

text \<open>
  C4, as the claim states it, fails: joining with \<open>|\<close> does not separate components
  that contain \<open>|\<close>. The two path lists below are reorderings of each other and are
  different, and have the same version whatever the digest and the compression method
  are.
\<close>

theorem getCacheVersion_collision:
  "[''a'', ''a|a''] \<noteq> [''a|a'', ''a''] \<and> [''a|a'', ''a''] = rev [''a'', ''a|a'']
   \<and> (\<forall>w m. getCacheVersion w [''a'', ''a|a''] m = getCacheVersion w [''a|a'', ''a''] m)"
  by (simp add: getCacheVersion_def versionComponents_def join_Cons)

text \<open>
  C4, amended: two different path lists none of whose paths contains \<open>|\<close>, with the
  same compression method (whose token has no \<open>|\<close>), have different versions, provided
  the digest does not collide on the two joined strings.
\<close>

theorem getCacheVersion_distinct:
  assumes "P1 \<noteq> P2"
    and "\<forall>p \<in> set P1 \<union> set P2. CHR ''|'' \<notin> set p"
    and "CHR ''|'' \<notin> set (stringOf m)"
    and "inj_on (sha256_hex w)
           {join ''|'' (versionComponents P1 m), join ''|'' (versionComponents P2 m)}"
  shows "getCacheVersion w P1 m \<noteq> getCacheVersion w P2 m"
proof
  assume "getCacheVersion w P1 m = getCacheVersion w P2 m"
  then have "sha256_hex w (join ''|'' (versionComponents P1 m))
      = sha256_hex w (join ''|'' (versionComponents P2 m))"
    by (simp only: getCacheVersion_def)
  then have "join ''|'' (versionComponents P1 m) = join ''|'' (versionComponents P2 m)"
    by (rule inj_onD [OF assms(4)]) simp_all
  then have "P1 = P2" by (rule versionComponents_inject [OF assms(2) assms(3)])
  with assms(1) show False by simp
qed

theorem getCacheVersion_distinct_witness:
  "getCacheVersion sampleWorld [''/a'', ''/b''] (Some ''zstd'')
     \<noteq> getCacheVersion sampleWorld [''/b'', ''/a''] (Some ''zstd'')"
proof -
  have a: "[''/a'', ''/b''] \<noteq> [''/b'', ''/a'']" by simp
  have b: "\<forall>p \<in> set [''/a'', ''/b''] \<union> set [''/b'', ''/a'']. CHR ''|'' \<notin> set p" by simp
  have c: "CHR ''|'' \<notin> set (stringOf (Some ''zstd''))" by (simp add: stringOf_def)
  have d: "inj_on (sha256_hex sampleWorld)
     {join ''|'' (versionComponents [''/a'', ''/b''] (Some ''zstd'')),
      join ''|'' (versionComponents [''/b'', ''/a''] (Some ''zstd''))}"
    by simp
  show ?thesis by (rule getCacheVersion_distinct [OF a b c d])
qed

section \<open>Properties of the lookup in a storage container\<close>

lemma matchNotPrimaryKey_eq:
  "matchNotPrimaryKey ks blob = (if name blob \<in> set ks then Some (blobEntry blob) else None)"
  by (induction ks) (auto simp: blobEntry_def)

lemma blobLoop_listing:
  "blobLoop (case keys of [] \<Rightarrow> None | k # _ \<Rightarrow> Some k) (drop 1 keys) (listing bs)
     = Inr (map_option blobEntry (find (\<lambda>b. name b \<in> set keys) bs))"
proof (induction bs)
  case Nil
  show ?case by simp
next
  case (Cons b bs)
  show ?case
  proof (cases keys)
    case Nil
    with Cons show ?thesis by (simp add: matchNotPrimaryKey_eq)
  next
    case (Cons k ks)
    with Cons.IH show ?thesis by (auto simp: matchNotPrimaryKey_eq blobEntry_def)
  qed
qed

text \<open>
  What the lookup in a container returns when the listing does not throw: the entry of
  the first blob, in the order of the listing, whose name is one of the keys; and null
  exactly when no blob is named after a key.
\<close>

lemma getCacheEntryBlob_first_listed:
  "listBlobsFlat w conn container = listing bs \<Longrightarrow>
   getCacheEntryBlob w conn container keys paths
     = Inr (map_option blobEntry (find (\<lambda>b. name b \<in> set keys) bs))"
  unfolding getCacheEntryBlob_def Let_def by (simp only: blobLoop_listing)

lemma getCacheEntryBlob_null:
  "listBlobsFlat w conn container = listing bs \<Longrightarrow>
   (getCacheEntryBlob w conn container keys paths = Inr None)
     = (\<forall>b \<in> set bs. name b \<notin> set keys)"
  by (auto simp: getCacheEntryBlob_first_listed find_None_iff)

text \<open>
  C2: the claim says that the entry of the primary key is returned whenever the
  listing holds a blob named after it, whatever the order of the listing, and that
  fallback keys are taken in the caller's order. The loop over the blobs is the outer
  one: with the fallback blob listed before the primary one the lookup returns the
  fallback key, and with two fallback blobs it returns the one listed first, not the
  one the caller ranks first.
\<close>

theorem getCacheEntryBlob_listing_order:
  "getCacheEntryBlob
     (sampleWorld\<lparr>listBlobsFlat := \<lambda>conn container.
        listing [\<lparr>name = ''fallback'', lastModified = ''2024-01-01''\<rparr>,
                 \<lparr>name = ''primary'', lastModified = ''2024-01-02''\<rparr>]\<rparr>)
     ''conn'' ''container'' [''primary'', ''fallback''] []
   = Inr (Some \<lparr>cacheKey = Some ''fallback'', creationTime = Some ''2024-01-01'',
                 archiveLocation = None\<rparr>)
   \<and> getCacheEntryBlob
     (sampleWorld\<lparr>listBlobsFlat := \<lambda>conn container.
        listing [\<lparr>name = ''second'', lastModified = ''2024-01-01''\<rparr>,
                 \<lparr>name = ''first'', lastModified = ''2024-01-02''\<rparr>]\<rparr>)
     ''conn'' ''container'' [''primary'', ''first'', ''second''] []
   = Inr (Some \<lparr>cacheKey = Some ''second'', creationTime = Some ''2024-01-01'',
                 archiveLocation = None\<rparr>)"
  by (simp add: getCacheEntryBlob_def)

text \<open>
  C9: with a container name and a connection string, the result of \<open>getCacheEntry\<close>
  does not depend on the paths or on the options, nor on the digest function (no
  version is computed); it is the result of the loop over the listing, which compares
  blob names with keys, and nothing is registered as a secret.
\<close>

theorem getCacheEntry_blob_ignores_paths:
  assumes "truthy bc" and "truthy cs"
  shows "getCacheEntry w keys P1 o1 bc cs = getCacheEntry w keys P2 o2 bc cs
    \<and> getCacheEntry (w\<lparr>sha256_hex := h\<rparr>) keys P1 o1 bc cs = getCacheEntry w keys P1 o1 bc cs
    \<and> getCacheEntry w keys P1 o1 bc cs
        = (blobLoop (case keys of [] \<Rightarrow> None | k # _ \<Rightarrow> Some k) (drop 1 keys)
             (listBlobsFlat w (stringOf cs) (stringOf bc)), [])"
  using assms by (simp add: getCacheEntry_def getCacheEntryBlob_def)

theorem getCacheEntry_blob_ignores_paths_witness:
  "getCacheEntry sampleWorld [''k''] [''/a''] None (Some ''container'') (Some ''conn'')
     = getCacheEntry sampleWorld [''k''] [''/b'', ''/c'']
         (Some \<lparr>compressionMethod = Some ''zstd'', cacheSize = None\<rparr>)
         (Some ''container'') (Some ''conn'')
   \<and> getCacheEntry sampleWorld [''k''] [''/a''] None (Some ''container'') (Some ''conn'')
     = (Inr None, [])"
  using getCacheEntry_blob_ignores_paths [of "Some ''container''" "Some ''conn''" sampleWorld
      "[''k'']" "[''/a'']" None "[''/b'', ''/c'']"
      "Some \<lparr>compressionMethod = Some ''zstd'', cacheSize = None\<rparr>" "\<lambda>s. s"]
  by (auto simp: stringOf_def)

section \<open>Properties of the reservation\<close>

text \<open>
  The retry returns the outcome of the first attempt that is not to be retried, when
  there is one within the budget; a response that it returns has no 5xx status and is
  the response of one of the attempts; and when every attempt is to be retried and the
  last one is a response, it raises the transport error of that response.
\<close>

lemma retryTypedResponse_first:
  assumes "k \<le> n" and "\<forall>j < k. shouldRetry w (m (a + j))" and "\<not> shouldRetry w (m (a + k))"
  shows "retryTypedResponse w m a n = m (a + k)"
  using assms
proof (induction k arbitrary: a n)
  case 0
  then show ?case by (cases n) (simp_all add: Let_def)
next
  case (Suc k)
  from Suc.prems(1) obtain n' where n: "n = Suc n'" and k: "k \<le> n'" by (cases n) auto
  from Suc.prems(2) have first: "shouldRetry w (m a)" by force
  have rest: "\<forall>j < k. shouldRetry w (m (Suc a + j))"
  proof (intro allI impI)
    fix j assume "j < k"
    then have "Suc j < Suc k" by simp
    with Suc.prems(2) have "shouldRetry w (m (a + Suc j))" by blast
    then show "shouldRetry w (m (Suc a + j))" by simp
  qed
  from Suc.prems(3) have stop: "\<not> shouldRetry w (m (Suc a + k))" by simp
  have "retryTypedResponse w m a n = retryTypedResponse w m (Suc a) n'"
    using first by (simp add: n Let_def)
  also have "\<dots> = m (Suc a + k)" by (rule Suc.IH [OF k rest stop])
  finally show ?case by simp
qed

lemma retryTypedResponse_Inr:
  "retryTypedResponse w m a n = Inr r \<Longrightarrow>
   \<not> isServerErrorStatusCode (statusCode r) \<and> (\<exists>k \<le> n. m (a + k) = Inr r)"
proof (induction n arbitrary: a)
  case 0
  then show ?case
    by (auto simp: Let_def lastError_def shouldRetry_def split: if_splits sum.splits)
next
  case (Suc n)
  show ?case
  proof (cases "shouldRetry w (m a)")
    case True
    with Suc.prems have "retryTypedResponse w m (Suc a) n = Inr r" by (simp add: Let_def)
    from Suc.IH [OF this] obtain k where "k \<le> n" and "m (Suc a + k) = Inr r"
      and ns: "\<not> isServerErrorStatusCode (statusCode r)" by blast
    then have "Suc k \<le> Suc n" and "m (a + Suc k) = Inr r" by simp_all
    with ns show ?thesis by blast
  next
    case False
    with Suc.prems have out: "m a = Inr r" by (simp add: Let_def)
    with False have "\<not> isServerErrorStatusCode (statusCode r)" by (simp add: shouldRetry_def)
    moreover from out have "\<exists>k \<le> Suc n. m (a + k) = Inr r" by (intro exI [of _ 0]) simp
    ultimately show ?thesis by blast
  qed
qed

lemma retryTypedResponse_exhausted:
  assumes "\<forall>j < n. shouldRetry w (m (a + j))" and "m (a + n) = Inr r"
    and "isServerErrorStatusCode (statusCode r)"
  shows "retryTypedResponse w m a n = Inl (TransportError (statusCode r))"
  using assms
proof (induction n arbitrary: a)
  case 0
  then show ?case by (simp add: Let_def shouldRetry_def lastError_def)
next
  case (Suc n)
  from Suc.prems(1) have first: "shouldRetry w (m a)" by force
  have rest: "\<forall>j < n. shouldRetry w (m (Suc a + j))"
  proof (intro allI impI)
    fix j assume "j < n"
    then have "Suc j < Suc n" by simp
    with Suc.prems(1) have "shouldRetry w (m (a + Suc j))" by blast
    then show "shouldRetry w (m (Suc a + j))" by simp
  qed
  from Suc.prems(2) have last: "m (Suc a + n) = Inr r" by simp
  have "retryTypedResponse w m a (Suc n) = retryTypedResponse w m (Suc a) n"
    using first by (simp add: Let_def)
  also have "\<dots> = Inl (TransportError (statusCode r))"
    by (rule Suc.IH [OF rest last Suc.prems(3)])
  finally show ?case .
qed

lemma reserveCacheResponse_attempts:
  "reserveCacheResponse w key paths options
     = retryTypedResponse w (reserveCacheAttempt w key paths options) 0 (maxRetries w)"
  unfolding reserveCacheResponse_def reserveCacheAttempt_def [abs_def] Let_def ..

text \<open>
  C8, as the claim states it, fails: the retry hands a response on only when its status
  is not a 5xx. A cache service that answers every reservation with status 500 makes
  \<open>reserveCache\<close> raise, after the last attempt of its budget.
\<close>

theorem reserveCache_raises_on_server_error:
  "reserveCache brokenWorld ''k'' [''/a''] None None None = Inl (TransportError 500)
   \<and> reserveCacheAttempt brokenWorld ''k'' [''/a''] None 0
       = Inr \<lparr>statusCode = 500, result = None, headers = []\<rparr>
   \<and> reserveCacheAttempt brokenWorld ''k'' [''/a''] None 1
       = Inr \<lparr>statusCode = 500, result = None, headers = []\<rparr>
   \<and> reserveCacheAttempt brokenWorld ''k'' [''/a''] None 2
       = Inr \<lparr>statusCode = 500, result = None, headers = []\<rparr>
   \<and> maxRetries brokenWorld = 2"
  by (simp add: reserveCache_def reserveCacheResponse_attempts reserveCacheAttempt_def
      brokenWorld_def getCacheApiUrl_def numeral_2_eq_2 Let_def shouldRetry_def lastError_def
      isServerErrorStatusCode_def)

text \<open>
  C8, amended: \<open>reserveCache\<close> hands a typed response on whenever its status is not a
  5xx, non-success and conflict statuses included. With a container it returns a
  response with status 0 and no result. On the HTTP path, when the attempts before the
  \<open>k\<close>-th were retried (each was answered with a 5xx status or failed with a recoverable
  transport error) and the \<open>k\<close>-th, within the budget, is answered with a status that is
  not a 5xx, \<open>reserveCache\<close> returns that response unchanged, whatever the status is; a
  response that \<open>reserveCache\<close> returns on this path is the response of one of the
  attempts and has no 5xx status; and when every attempt of the budget was retried and
  the last one was answered with a 5xx status, \<open>reserveCache\<close> raises.
\<close>

theorem reserveCache_returns_response:
  "(truthy bc \<and> truthy cs
        \<longrightarrow> reserveCache w key paths options bc cs
            = Inr \<lparr>statusCode = 0, result = None, headers = []\<rparr>)
   \<and> (\<forall>k r. \<not> (truthy bc \<and> truthy cs) \<and> k \<le> maxRetries w
          \<and> (\<forall>j < k. shouldRetry w (reserveCacheAttempt w key paths options j))
          \<and> reserveCacheAttempt w key paths options k = Inr r
          \<and> \<not> isServerErrorStatusCode (statusCode r)
        \<longrightarrow> reserveCache w key paths options bc cs = Inr r)
   \<and> (\<forall>r. \<not> (truthy bc \<and> truthy cs) \<and> reserveCache w key paths options bc cs = Inr r
        \<longrightarrow> \<not> isServerErrorStatusCode (statusCode r)
          \<and> (\<exists>k \<le> maxRetries w. reserveCacheAttempt w key paths options k = Inr r))
   \<and> (\<forall>r. \<not> (truthy bc \<and> truthy cs)
          \<and> (\<forall>j < maxRetries w. shouldRetry w (reserveCacheAttempt w key paths options j))
          \<and> reserveCacheAttempt w key paths options (maxRetries w) = Inr r
          \<and> isServerErrorStatusCode (statusCode r)
        \<longrightarrow> reserveCache w key paths options bc cs = Inl (TransportError (statusCode r)))"
proof -
  let ?m = "reserveCacheAttempt w key paths options"
  have A: "truthy bc \<and> truthy cs
        \<longrightarrow> reserveCache w key paths options bc cs
            = Inr \<lparr>statusCode = 0, result = None, headers = []\<rparr>"
    by (simp add: reserveCache_def)
  have http: "reserveCache w key paths options bc cs = retryTypedResponse w ?m 0 (maxRetries w)"
    if "\<not> (truthy bc \<and> truthy cs)"
    using that by (auto simp: reserveCache_def reserveCacheResponse_attempts)
  have B: "\<forall>k r. \<not> (truthy bc \<and> truthy cs) \<and> k \<le> maxRetries w
          \<and> (\<forall>j < k. shouldRetry w (?m j)) \<and> ?m k = Inr r
          \<and> \<not> isServerErrorStatusCode (statusCode r)
        \<longrightarrow> reserveCache w key paths options bc cs = Inr r"
  proof (intro allI impI)
    fix k r
    assume h: "\<not> (truthy bc \<and> truthy cs) \<and> k \<le> maxRetries w
          \<and> (\<forall>j < k. shouldRetry w (?m j)) \<and> ?m k = Inr r
          \<and> \<not> isServerErrorStatusCode (statusCode r)"
    then have k: "k \<le> maxRetries w" and before: "\<forall>j < k. shouldRetry w (?m (0 + j))"
      and at: "?m k = Inr r" and ns: "\<not> isServerErrorStatusCode (statusCode r)"
      by simp_all
    from at ns have stop: "\<not> shouldRetry w (?m (0 + k))" by (simp add: shouldRetry_def)
    from retryTypedResponse_first [OF k before stop] at http h
    show "reserveCache w key paths options bc cs = Inr r" by simp
  qed
  have Cc: "\<forall>r. \<not> (truthy bc \<and> truthy cs) \<and> reserveCache w key paths options bc cs = Inr r
        \<longrightarrow> \<not> isServerErrorStatusCode (statusCode r)
          \<and> (\<exists>k \<le> maxRetries w. ?m k = Inr r)"
  proof (intro allI impI)
    fix r
    assume h: "\<not> (truthy bc \<and> truthy cs) \<and> reserveCache w key paths options bc cs = Inr r"
    with http have "retryTypedResponse w ?m 0 (maxRetries w) = Inr r" by simp
    from retryTypedResponse_Inr [OF this]
    show "\<not> isServerErrorStatusCode (statusCode r) \<and> (\<exists>k \<le> maxRetries w. ?m k = Inr r)"
      by simp
  qed
  have D: "\<forall>r. \<not> (truthy bc \<and> truthy cs)
          \<and> (\<forall>j < maxRetries w. shouldRetry w (?m j))
          \<and> ?m (maxRetries w) = Inr r \<and> isServerErrorStatusCode (statusCode r)
        \<longrightarrow> reserveCache w key paths options bc cs = Inl (TransportError (statusCode r))"
  proof (intro allI impI)
    fix r
    assume h: "\<not> (truthy bc \<and> truthy cs)
          \<and> (\<forall>j < maxRetries w. shouldRetry w (?m j))
          \<and> ?m (maxRetries w) = Inr r \<and> isServerErrorStatusCode (statusCode r)"
    then have before: "\<forall>j < maxRetries w. shouldRetry w (?m (0 + j))"
      and at: "?m (0 + maxRetries w) = Inr r" and se: "isServerErrorStatusCode (statusCode r)"
      by simp_all
    from retryTypedResponse_exhausted [OF before at se] http h
    show "reserveCache w key paths options bc cs = Inl (TransportError (statusCode r))"
      by simp
  qed
  from A B Cc D show ?thesis by blast
qed

theorem reserveCache_returns_response_witness:
  "reserveCache conflictWorld ''k'' [''/a''] None None None
     = Inr \<lparr>statusCode = 409, result = None, headers = []\<rparr>
   \<and> reserveCache recoveringWorld ''k'' [''/a''] None None None
     = Inr \<lparr>statusCode = 201, result = Some 7, headers = []\<rparr>
   \<and> shouldRetry recoveringWorld (reserveCacheAttempt recoveringWorld ''k'' [''/a''] None 0)"
proof -
  have nb: "\<not> (truthy None \<and> truthy None)" by simp
  have c0: "reserveCacheAttempt conflictWorld ''k'' [''/a''] None 0
      = Inr \<lparr>statusCode = 409, result = None, headers = []\<rparr>"
    by (simp add: reserveCacheAttempt_def conflictWorld_def getCacheApiUrl_def)
  have c409: "\<not> isServerErrorStatusCode
      (statusCode \<lparr>statusCode = 409, result = None :: int option, headers = []\<rparr>)"
    by (simp add: isServerErrorStatusCode_def)
  from reserveCache_returns_response [of None None conflictWorld "''k''" "[''/a'']" None]
  have "\<forall>k r. \<not> (truthy None \<and> truthy None) \<and> k \<le> maxRetries conflictWorld
          \<and> (\<forall>j < k. shouldRetry conflictWorld
                (reserveCacheAttempt conflictWorld ''k'' [''/a''] None j))
          \<and> reserveCacheAttempt conflictWorld ''k'' [''/a''] None k = Inr r
          \<and> \<not> isServerErrorStatusCode (statusCode r)
        \<longrightarrow> reserveCache conflictWorld ''k'' [''/a''] None None None = Inr r"
    by (rule conjunct1 [OF conjunct2])
  from this [rule_format, of 0 "\<lparr>statusCode = 409, result = None, headers = []\<rparr>"] nb c0 c409
  have a: "reserveCache conflictWorld ''k'' [''/a''] None None None
     = Inr \<lparr>statusCode = 409, result = None, headers = []\<rparr>"
    by simp
  have r0: "reserveCacheAttempt recoveringWorld ''k'' [''/a''] None 0
      = Inr \<lparr>statusCode = 503, result = None, headers = []\<rparr>"
    by (simp add: reserveCacheAttempt_def recoveringWorld_def getCacheApiUrl_def)
  have r1: "reserveCacheAttempt recoveringWorld ''k'' [''/a''] None (Suc 0)
      = Inr \<lparr>statusCode = 201, result = Some 7, headers = []\<rparr>"
    by (simp add: reserveCacheAttempt_def recoveringWorld_def getCacheApiUrl_def)
  have s0: "shouldRetry recoveringWorld (reserveCacheAttempt recoveringWorld ''k'' [''/a''] None 0)"
    unfolding r0 by (simp add: shouldRetry_def isServerErrorStatusCode_def)
  then have before: "\<forall>j < Suc 0. shouldRetry recoveringWorld
      (reserveCacheAttempt recoveringWorld ''k'' [''/a''] None j)"
    by simp
  have c201: "\<not> isServerErrorStatusCode
      (statusCode \<lparr>statusCode = 201, result = Some (7::int), headers = []\<rparr>)"
    by (simp add: isServerErrorStatusCode_def)
  have budget: "Suc 0 \<le> maxRetries recoveringWorld" by (simp add: recoveringWorld_def)
  from reserveCache_returns_response [of None None recoveringWorld "''k''" "[''/a'']" None]
  have "\<forall>k r. \<not> (truthy None \<and> truthy None) \<and> k \<le> maxRetries recoveringWorld
          \<and> (\<forall>j < k. shouldRetry recoveringWorld
                (reserveCacheAttempt recoveringWorld ''k'' [''/a''] None j))
          \<and> reserveCacheAttempt recoveringWorld ''k'' [''/a''] None k = Inr r
          \<and> \<not> isServerErrorStatusCode (statusCode r)
        \<longrightarrow> reserveCache recoveringWorld ''k'' [''/a''] None None None = Inr r"
    by (rule conjunct1 [OF conjunct2])
  from this [rule_format, of "Suc 0" "\<lparr>statusCode = 201, result = Some 7, headers = []\<rparr>"]
    nb budget before r1 c201
  have b: "reserveCache recoveringWorld ''k'' [''/a''] None None None
     = Inr \<lparr>statusCode = 201, result = Some 7, headers = []\<rparr>"
    by blast
  from a b s0 show ?thesis by simp
qed

section \<open>Properties of the lookup over HTTP\<close>

text \<open>
  C6: on the HTTP path \<open>getCacheEntry\<close> returns null exactly when the awaited
  response has status 204, and then nothing is registered as a secret; any other status
  that is not a success raises an error, and so does a success response without a
  (non-empty) archive location; a success response with a (non-empty) archive location
  makes \<open>getCacheEntry\<close> return the entry of the response, after it has registered the
  location as a secret and printed the entry to the debug log, in this order; and
  whenever an entry is returned, its download location was registered as a secret
  first.
\<close>

theorem getCacheEntry_http:
  assumes "\<not> (truthy bc \<and> truthy cs)"
  shows "((fst (getCacheEntry w keys paths options bc cs) = Inr None)
            = (\<exists>r. getCacheEntryResponse w keys paths options = Inr r \<and> statusCode r = 204))
    \<and> (fst (getCacheEntry w keys paths options bc cs) = Inr None
          \<longrightarrow> snd (getCacheEntry w keys paths options bc cs) = [])
    \<and> (\<forall>r. getCacheEntryResponse w keys paths options = Inr r \<and> statusCode r \<noteq> 204
            \<and> \<not> isSuccessStatusCode w (Some (statusCode r))
          \<longrightarrow> getCacheEntry w keys paths options bc cs
                = (Inl (ServiceResponded (statusCode r)), []))
    \<and> (\<forall>r. getCacheEntryResponse w keys paths options = Inr r \<and> statusCode r \<noteq> 204
            \<and> isSuccessStatusCode w (Some (statusCode r))
            \<and> \<not> truthy (Option.bind (result r) archiveLocation)
          \<longrightarrow> getCacheEntry w keys paths options bc cs = (Inl CacheNotFound, []))
    \<and> (\<forall>entry. fst (getCacheEntry w keys paths options bc cs) = Inr (Some entry)
          \<longrightarrow> (\<exists>url. archiveLocation entry = Some url \<and> url \<noteq> []
                \<and> snd (getCacheEntry w keys paths options bc cs)
                    = [AddMask url, Debug ''Cache Result:'', DebugJson (Some entry)]))
    \<and> (\<forall>r entry url. getCacheEntryResponse w keys paths options = Inr r
            \<and> statusCode r \<noteq> 204 \<and> isSuccessStatusCode w (Some (statusCode r))
            \<and> result r = Some entry \<and> archiveLocation entry = Some url \<and> url \<noteq> []
          \<longrightarrow> getCacheEntry w keys paths options bc cs
                = (Inr (Some entry),
                   [AddMask url, Debug ''Cache Result:'', DebugJson (Some entry)]))"
proof -
  have nb: "(truthy bc \<and> truthy cs) = False" using assms by simp
  note unfold = getCacheEntry_def [of w keys paths options bc cs, unfolded nb if_False]
  show ?thesis
  proof (cases "getCacheEntryResponse w keys paths options")
    case (Inl e)
    then show ?thesis by (simp add: unfold)
  next
    case (Inr r)
    show ?thesis
    proof (cases "statusCode r = 204")
      case True
      with Inr show ?thesis by (simp add: unfold)
    next
      case no204: False
      show ?thesis
      proof (cases "isSuccessStatusCode w (Some (statusCode r))")
        case False
        with Inr no204 show ?thesis by (simp add: unfold)
      next
        case True
        show ?thesis
        proof (cases "result r")
          case None
          with Inr no204 True show ?thesis by (simp add: unfold Let_def)
        next
          case (Some entry)
          show ?thesis
          proof (cases "archiveLocation entry")
            case None
            with Inr no204 True Some show ?thesis by (simp add: unfold Let_def)
          next
            case (Some url)
            with Inr no204 True \<open>result r = Some entry\<close> show ?thesis
              by (simp add: unfold stringOf_def Let_def)
          qed
        qed
      qed
    qed
  qed
qed

theorem getCacheEntry_http_witness:
  "getCacheEntry sampleWorld [''k''] [''/a''] None None None = (Inr None, [])
   \<and> getCacheEntry foundWorld [''k''] [''/a''] None None None
     = (Inr (Some \<lparr>cacheKey = Some ''k'', creationTime = Some ''2024-01-01'',
                    archiveLocation = Some ''https://store.example/archive''\<rparr>),
        [AddMask ''https://store.example/archive'', Debug ''Cache Result:'',
         DebugJson (Some \<lparr>cacheKey = Some ''k'', creationTime = Some ''2024-01-01'',
                    archiveLocation = Some ''https://store.example/archive''\<rparr>)])"
proof -
  let ?entry = "\<lparr>cacheKey = Some ''k'', creationTime = Some ''2024-01-01'',
      archiveLocation = Some ''https://store.example/archive''\<rparr>"
  have h: "\<not> (truthy None \<and> truthy None)" by simp
  have r1: "getCacheEntryResponse sampleWorld [''k''] [''/a''] None
      = Inr \<lparr>statusCode = 204, result = None, headers = []\<rparr>"
    by (simp add: getCacheEntryResponse_def)
  have r2: "getCacheEntryResponse foundWorld [''k''] [''/a''] None
      = Inr \<lparr>statusCode = 200, result = Some ?entry, headers = []\<rparr>"
    by (simp add: getCacheEntryResponse_def foundWorld_def)
  have s2: "isSuccessStatusCode foundWorld (Some 200)" by (simp add: foundWorld_def)
  from getCacheEntry_http [OF h, of sampleWorld "[''k'']" "[''/a'']" None] r1
  have a: "getCacheEntry sampleWorld [''k''] [''/a''] None None None = (Inr None, [])"
    by (simp add: prod_eq_iff)
  note t = getCacheEntry_http [OF h, of foundWorld "[''k'']" "[''/a'']" None]
  from t have "\<forall>r entry url. getCacheEntryResponse foundWorld [''k''] [''/a''] None = Inr r
            \<and> statusCode r \<noteq> 204 \<and> isSuccessStatusCode foundWorld (Some (statusCode r))
            \<and> result r = Some entry \<and> archiveLocation entry = Some url \<and> url \<noteq> []
          \<longrightarrow> getCacheEntry foundWorld [''k''] [''/a''] None None None
                = (Inr (Some entry),
                   [AddMask url, Debug ''Cache Result:'', DebugJson (Some entry)])"
    by (rule conjunct2 [OF conjunct2 [OF conjunct2 [OF conjunct2 [OF conjunct2]]]])
  from this [rule_format, of "\<lparr>statusCode = 200, result = Some ?entry, headers = []\<rparr>"
      ?entry "''https://store.example/archive''"] r2 s2
  have b: "getCacheEntry foundWorld [''k''] [''/a''] None None None
     = (Inr (Some ?entry),
        [AddMask ''https://store.example/archive'', Debug ''Cache Result:'',
         DebugJson (Some ?entry)])"
    by simp
  from a b show ?thesis by simp
qed

section \<open>Properties of the download\<close>

text \<open>
  C1: the claim says that exactly one download strategy runs on every call. When the
  SDK download is chosen (the option is on and the host of the archive location ends
  with the blob storage domain) and returns, \<open>downloadCache\<close> goes on to a second
  download: the one by key from the container when a container, a connection string and
  a cache key are given, the one over HTTP otherwise.
\<close>

theorem downloadCache_falls_through:
  assumes "archiveLocation e = Some loc"
    and "url_hostname w loc = Some h"
    and "suffix ''.blob.core.windows.net'' h"
    and "useAzureSdk (getDownloadOptions w options) = Some True"
    and "downloadCacheStorageSDK w loc path (getDownloadOptions w options) = Inr ()"
  shows "snd (downloadCache w e path options bc cs)
    = [DownloadCacheStorageSDK loc path,
       if truthy bc \<and> truthy cs \<and> truthy (cacheKey e)
       then DownloadCacheBlobStorage (stringOf (cacheKey e)) path (stringOf bc) (stringOf cs)
       else DownloadCacheHttpClient loc path]"
  using assms by (simp add: downloadCache_def)

theorem downloadCache_falls_through_witness:
  "snd (downloadCache azureWorld
          \<lparr>cacheKey = Some ''k'', creationTime = None,
           archiveLocation = Some ''https://account.blob.core.windows.net/c/k''\<rparr>
          ''/tmp/cache.tzst'' None None None)
     = [DownloadCacheStorageSDK ''https://account.blob.core.windows.net/c/k'' ''/tmp/cache.tzst'',
        DownloadCacheHttpClient ''https://account.blob.core.windows.net/c/k'' ''/tmp/cache.tzst'']
   \<and> snd (downloadCache azureWorld
          \<lparr>cacheKey = Some ''k'', creationTime = None,
           archiveLocation = Some ''https://account.blob.core.windows.net/c/k''\<rparr>
          ''/tmp/cache.tzst'' None (Some ''container'') (Some ''conn''))
     = [DownloadCacheStorageSDK ''https://account.blob.core.windows.net/c/k'' ''/tmp/cache.tzst'',
        DownloadCacheBlobStorage ''k'' ''/tmp/cache.tzst'' ''container'' ''conn'']"
proof -
  let ?e = "\<lparr>cacheKey = Some ''k'', creationTime = None,
           archiveLocation = Some ''https://account.blob.core.windows.net/c/k''\<rparr>"
  have a: "archiveLocation ?e = Some ''https://account.blob.core.windows.net/c/k''" by simp
  have b: "url_hostname azureWorld ''https://account.blob.core.windows.net/c/k''
     = Some ''account.blob.core.windows.net''" by (simp add: azureWorld_def)
  have c: "suffix ''.blob.core.windows.net'' ''account.blob.core.windows.net''"
    by (simp add: suffix_to_prefix)
  have d: "useAzureSdk (getDownloadOptions azureWorld None) = Some True"
    by (simp add: azureWorld_def)
  have f: "downloadCacheStorageSDK azureWorld ''https://account.blob.core.windows.net/c/k''
      ''/tmp/cache.tzst'' (getDownloadOptions azureWorld None) = Inr ()"
    by (simp add: azureWorld_def)
  show ?thesis
    using downloadCache_falls_through [OF a b c d f, of None None]
      downloadCache_falls_through [OF a b c d f, of "Some ''container''" "Some ''conn''"]
    by (simp add: stringOf_def)
qed

text \<open>When the SDK download is not chosen, exactly one of the other two downloads runs.\<close>

lemma downloadCache_one_download:
  assumes "url_hostname w (case archiveLocation e of None \<Rightarrow> noArchiveLocation | Some l \<Rightarrow> l)
             = Some h"
    and "(useAzureSdk (getDownloadOptions w options) = Some True
            \<and> suffix ''.blob.core.windows.net'' h) = False"
  shows "length (snd (downloadCache w e path options bc cs)) = 1"
  by (simp add: downloadCache_def assms Let_def)

text \<open>
  C10: an entry without archive location is handled like an entry whose location is
  the placeholder \<open>https://NoArchiveLocationFound.com\<close>; when the host of the placeholder
  is not on the blob storage domain and no container download applies, the download
  over HTTP is attempted against the placeholder.
\<close>

theorem downloadCache_placeholder:
  assumes "archiveLocation e = None"
  shows "downloadCache w e path options bc cs
      = downloadCache w (e\<lparr>archiveLocation := Some ''https://NoArchiveLocationFound.com''\<rparr>)
          path options bc cs
    \<and> (\<forall>h. url_hostname w ''https://NoArchiveLocationFound.com'' = Some h
            \<and> \<not> suffix ''.blob.core.windows.net'' h
            \<and> \<not> (truthy bc \<and> truthy cs \<and> truthy (cacheKey e))
          \<longrightarrow> downloadCache w e path options bc cs
              = (downloadCacheHttpClient w ''https://NoArchiveLocationFound.com'' path,
                 [DownloadCacheHttpClient ''https://NoArchiveLocationFound.com'' path]))"
proof (intro conjI allI impI)
  show "downloadCache w e path options bc cs
      = downloadCache w (e\<lparr>archiveLocation := Some ''https://NoArchiveLocationFound.com''\<rparr>)
          path options bc cs"
    using assms
    by (auto simp: downloadCache_def noArchiveLocation_def Let_def
          split: option.split sum.split prod.split)
next
  fix h
  assume h: "url_hostname w ''https://NoArchiveLocationFound.com'' = Some h
            \<and> \<not> suffix ''.blob.core.windows.net'' h
            \<and> \<not> (truthy bc \<and> truthy cs \<and> truthy (cacheKey e))"
  then have nb: "(truthy bc \<and> truthy cs \<and> truthy (cacheKey e)) = False" by simp
  from h have ns: "suffix ''.blob.core.windows.net'' h = False" by simp
  from h have host: "url_hostname w ''https://NoArchiveLocationFound.com'' = Some h" by simp
  show "downloadCache w e path options bc cs
              = (downloadCacheHttpClient w ''https://NoArchiveLocationFound.com'' path,
                 [DownloadCacheHttpClient ''https://NoArchiveLocationFound.com'' path])"
    by (simp add: downloadCache_def noArchiveLocation_def assms host ns nb Let_def)
qed

theorem downloadCache_placeholder_witness:
  "downloadCache placeholderWorld \<lparr>cacheKey = Some ''k'', creationTime = None, archiveLocation = None\<rparr>
     ''/tmp/cache.tzst'' None None None
   = (Inr (), [DownloadCacheHttpClient ''https://NoArchiveLocationFound.com'' ''/tmp/cache.tzst''])"
proof -
  have a: "archiveLocation \<lparr>cacheKey = Some ''k'', creationTime = None, archiveLocation = None\<rparr>
     = None" by simp
  have b: "\<not> suffix ''.blob.core.windows.net'' ''noarchivelocationfound.com''"
    by (simp add: suffix_to_prefix)
  show ?thesis
    using downloadCache_placeholder [OF a, of placeholderWorld "''/tmp/cache.tzst''" None None None] b
    by (auto simp: placeholderWorld_def)
qed

section \<open>Properties of the chunked upload\<close>

subsection \<open>Rounding\<close>

text \<open>
  Integers up to \<open>2^53\<close> in absolute value are not rounded, and rounding never takes a
  result below a bound that is such an integer.
\<close>

lemma double_exact: "\<bar>x\<bar> \<le> 2 ^ 53 \<Longrightarrow> double x = x"
  by (simp add: double_def)

lemma bitLength_bounds: "0 < n \<Longrightarrow> 2 ^ (bitLength n - 1) \<le> n \<and> n < 2 ^ bitLength n"
proof (induction n rule: bitLength.induct)
  case (1 n)
  from 1 have n0: "\<not> n \<le> 0" by simp
  have b: "bitLength n = Suc (bitLength (n div 2))" using n0 by (simp add: bitLength.simps [of n])
  show ?case
  proof (cases "n div 2 \<le> 0")
    case True
    with 1 have "n = 1" by presburger
    then show ?thesis by (simp add: bitLength.simps [of 1] bitLength.simps [of 0])
  next
    case False
    then have pos: "0 < n div 2" by simp
    from "1.IH" [OF n0 pos]
    have lo: "2 ^ (bitLength (n div 2) - 1) \<le> n div 2" and hi: "n div 2 < 2 ^ bitLength (n div 2)"
      by simp_all
    have bp: "0 < bitLength (n div 2)" using False by (simp add: bitLength.simps [of "n div 2"])
    then have e: "bitLength (n div 2) = Suc (bitLength (n div 2) - 1)" by simp
    have "(2::int) ^ (bitLength n - 1) = 2 ^ Suc (bitLength (n div 2) - 1)"
      unfolding b using e by simp
    also have "\<dots> = 2 * 2 ^ (bitLength (n div 2) - 1)" by simp
    also have "\<dots> \<le> 2 * (n div 2)" using lo by simp
    also have "\<dots> \<le> n" by presburger
    finally have A: "2 ^ (bitLength n - 1) \<le> n" .
    have "n < 2 * (n div 2) + 2" by presburger
    also have "\<dots> \<le> 2 * 2 ^ bitLength (n div 2)" using hi by simp
    finally have B: "n < 2 ^ bitLength n" unfolding b by simp
    from A B show ?thesis by simp
  qed
qed

lemma roundTiesToEven_ge:
  assumes "0 < q" and "a \<le> x" and "q dvd a"
  shows "a \<le> roundTiesToEven q x"
proof -
  from assms(3) obtain m where m: "a = m * q" by (auto simp: dvd_def mult.commute)
  have "m * q \<le> x" using assms(2) m by simp
  then have "(m * q) div q \<le> x div q" by (rule zdiv_mono1) (rule assms(1))
  then have "m \<le> x div q" using assms(1) by simp
  then have "m * q \<le> (x div q) * q" using assms(1) by (simp add: mult_right_mono)
  then have le: "a \<le> (x div q) * q" using m by simp
  have "roundTiesToEven q x = (x div q) * q \<or> roundTiesToEven q x = (x div q) * q + q"
    by (simp add: roundTiesToEven_def Let_def)
  then show ?thesis
  proof
    assume "roundTiesToEven q x = (x div q) * q"
    with le show ?thesis by simp
  next
    assume "roundTiesToEven q x = (x div q) * q + q"
    with le assms(1) show ?thesis by linarith
  qed
qed

lemma double_ge_big:
  assumes "2 ^ 53 < x"
  shows "2 ^ 53 \<le> double x"
proof -
  let ?n = "bitLength \<bar>x\<bar>"
  have x0: "0 < x" using assms by (smt (verit) zero_less_power)
  then have ax: "\<bar>x\<bar> = x" by simp
  from bitLength_bounds [OF x0] have hi: "x < 2 ^ bitLength x" and lo: "2 ^ (bitLength x - 1) \<le> x"
    by simp_all
  have "(2::int) ^ 53 < 2 ^ bitLength x" using assms hi by (rule less_trans)
  then have n: "53 < bitLength x" by (rule power_less_imp_less_exp [rotated]) simp
  have dv: "(2::int) ^ (bitLength x - 53) dvd 2 ^ (bitLength x - 1)"
    by (rule le_imp_power_dvd) simp
  have r: "2 ^ (bitLength x - 1) \<le> roundTiesToEven (2 ^ (bitLength x - 53)) x"
    by (rule roundTiesToEven_ge [OF _ lo dv]) simp
  have "(2::int) ^ 53 \<le> 2 ^ (bitLength x - 1)" using n by (intro power_increasing) simp_all
  with r have y: "2 ^ 53 \<le> roundTiesToEven (2 ^ (bitLength x - 53)) x" by simp
  define Y where "Y = roundTiesToEven (2 ^ (bitLength x - 53)) x"
  have d: "double x = (if 2 ^ 1024 \<le> Y then 2 ^ 1024
      else if Y \<le> - (2 ^ 1024) then - (2 ^ 1024) else Y)"
    using assms x0 by (simp add: double_def Let_def Y_def)
  from y have "2 ^ 53 \<le> Y" by (simp only: Y_def)
  then show ?thesis unfolding d by simp
qed

lemma double_ge:
  assumes "a \<le> 2 ^ 53" and "0 \<le> a" and "a \<le> x"
  shows "a \<le> double x"
proof (cases "x \<le> 2 ^ 53")
  case True
  with assms have "\<bar>x\<bar> \<le> 2 ^ 53" by simp
  then show ?thesis using assms(3) by (simp add: double_exact)
next
  case False
  then have "2 ^ 53 \<le> double x" by (intro double_ge_big) simp
  with assms(1) show ?thesis by simp
qed

subsection \<open>Arithmetic of the cursor\<close>

lemma le_div_iff_int:
  fixes a b C :: int
  assumes "0 < C"
  shows "(a \<le> b div C) = (a * C \<le> b)"
proof
  assume "a \<le> b div C"
  then have "a * C \<le> (b div C) * C" using assms by (simp add: mult_right_mono)
  moreover have "b = (b div C) * C + b mod C" by simp
  moreover have "0 \<le> b mod C" using assms by simp
  ultimately show "a * C \<le> b" by linarith
next
  assume "a * C \<le> b"
  then have "(a * C) div C \<le> b div C" using assms by (rule zdiv_mono1)
  then show "a \<le> b div C" using assms by simp
qed

lemma cursor_before_end:
  assumes "0 < C"
  shows "(int k * C < F) = (k < nat ((F + C - 1) div C))"
proof -
  have "(k < nat ((F + C - 1) div C)) = (int k + 1 \<le> (F + C - 1) div C)" by linarith
  also have "\<dots> = ((int k + 1) * C \<le> F + C - 1)" by (rule le_div_iff_int [OF assms])
  also have "(int k + 1) * C = int k * C + C" by (simp add: distrib_right)
  finally show ?thesis by linarith
qed

lemma length_chunkRanges: "length (chunkRanges F C) = nat ((F + C - 1) div C)"
  by (simp add: chunkRanges_def)

lemma nth_chunkRanges:
  "k < length (chunkRanges F C) \<Longrightarrow>
   chunkRanges F C ! k = (int k * C, min F (int k * C + C) - 1)"
  by (simp add: chunkRanges_def)

subsection \<open>One pass of a worker\<close>

lemma claimChunk_Finished:
  "\<not> offset p < F \<Longrightarrow> claimChunk F C p = (Finished, p)"
  by (simp add: claimChunk_def)

lemma claimChunk_Uploading:
  "offset p < F \<Longrightarrow>
   claimChunk F C p =
     (Uploading (offset p) (rangeEnd F C (offset p)),
      p\<lparr>offset := double (offset p + C),
        issued := issued p @ [(offset p, rangeEnd F C (offset p))]\<rparr>)"
  by (simp add: claimChunk_def Let_def rangeEnd_def)

lemma workers_claimChunk [simp]: "workers (snd (claimChunk F C p)) = workers p"
  by (simp add: claimChunk_def Let_def)

text \<open>
  In a file of at most \<open>2^53\<close> bytes the end of a claimed range is the exact one, and
  the cursor moves to the start of the next range, or to the end of the file or past it.
\<close>

lemma rangeEnd_exact:
  assumes "0 \<le> off" and "off < F" and "F \<le> 2 ^ 53" and "0 < C"
  shows "rangeEnd F C off = min F (off + C) - 1"
proof -
  have "\<bar>F - off\<bar> \<le> 2 ^ 53" using assms by linarith
  then have a: "double (F - off) = F - off" by (rule double_exact)
  have b: "off + min (F - off) C = min F (off + C)" by linarith
  have "\<bar>min F (off + C)\<bar> \<le> 2 ^ 53" using assms by linarith
  then have c: "double (min F (off + C)) = min F (off + C)" by (rule double_exact)
  have "\<bar>min F (off + C) - 1\<bar> \<le> 2 ^ 53" using assms by linarith
  then have d: "double (min F (off + C) - 1) = min F (off + C) - 1" by (rule double_exact)
  show ?thesis unfolding rangeEnd_def a b c d ..
qed

lemma cursor_step:
  assumes C: "0 < C" and F53: "F \<le> 2 ^ 53"
    and k: "length is < length (chunkRanges F C)"
    and off: "off = int (length is) * C"
    and pre: "is = take (length is) (chunkRanges F C)"
    and js: "js = is @ [(off, rangeEnd F C off)]"
  shows "length js \<le> length (chunkRanges F C)
    \<and> (length js < length (chunkRanges F C) \<longrightarrow> double (off + C) = int (length js) * C)
    \<and> (length js = length (chunkRanges F C) \<longrightarrow> F \<le> double (off + C))
    \<and> js = take (length js) (chunkRanges F C)"
proof -
  let ?k = "length is"
  have lt: "off < F"
    using k off cursor_before_end [OF C, of ?k F] by (simp add: length_chunkRanges)
  have o0: "0 \<le> off" using C off by simp
  have re: "rangeEnd F C off = min F (off + C) - 1" by (rule rangeEnd_exact [OF o0 lt F53 C])
  have nth: "chunkRanges F C ! ?k = (off, rangeEnd F C off)"
    using nth_chunkRanges [OF k] off re by simp
  have "take (Suc ?k) (chunkRanges F C) = take ?k (chunkRanges F C) @ [chunkRanges F C ! ?k]"
    using k by (rule take_Suc_conv_app_nth)
  then have t: "take (Suc ?k) (chunkRanges F C) = js"
    using pre nth js by simp
  have l: "length js = Suc ?k" using js by simp
  have o: "off + C = int (Suc ?k) * C" using off by (simp add: distrib_right)
  have A: "length js < length (chunkRanges F C) \<longrightarrow> double (off + C) = int (length js) * C"
  proof
    assume "length js < length (chunkRanges F C)"
    then have "int (Suc ?k) * C < F"
      using cursor_before_end [OF C, of "Suc ?k" F] l by (simp add: length_chunkRanges)
    then have "off + C < F" by (simp only: o)
    with F53 o0 C have "\<bar>off + C\<bar> \<le> 2 ^ 53" by linarith
    then have "double (off + C) = off + C" by (rule double_exact)
    then show "double (off + C) = int (length js) * C" by (simp only: o l)
  qed
  have B: "length js = length (chunkRanges F C) \<longrightarrow> F \<le> double (off + C)"
  proof
    assume "length js = length (chunkRanges F C)"
    then have "\<not> Suc ?k < length (chunkRanges F C)" using l by simp
    then have "\<not> int (Suc ?k) * C < F"
      using cursor_before_end [OF C, of "Suc ?k" F] by (simp add: length_chunkRanges)
    then have le: "F \<le> off + C" by (simp only: o)
    from lt o0 have F0: "0 \<le> F" by simp
    show "F \<le> double (off + C)" by (rule double_ge [OF F53 F0 le])
  qed
  from k l have "length js \<le> length (chunkRanges F C)" by simp
  with A B t l show ?thesis by simp
qed

lemma cursorInv_before_end:
  assumes "cursorInv F C p" and "offset p < F"
  shows "length (issued p) < length (chunkRanges F C)"
proof -
  from assms(1) have len: "length (issued p) \<le> length (chunkRanges F C)"
    and atend: "length (issued p) = length (chunkRanges F C) \<longrightarrow> F \<le> offset p"
    unfolding cursorInv_def by blast+
  from atend assms(2) have "length (issued p) \<noteq> length (chunkRanges F C)" by auto
  with len show ?thesis by simp
qed

subsection \<open>Updating one worker of the list\<close>

lemma length_filter_update:
  "i < length ws \<Longrightarrow>
   length (filter P (ws[i := x])) + (if P (ws ! i) then 1 else 0)
     = length (filter P ws) + (if P x then 1 else 0)"
proof (induction ws arbitrary: i)
  case Nil
  then show ?case by simp
next
  case (Cons a ws)
  show ?case
  proof (cases i)
    case 0
    then show ?thesis by simp
  next
    case (Suc j)
    with Cons.prems have "j < length ws" by simp
    from Cons.IH [OF this] Suc show ?thesis by simp
  qed
qed

lemma in_set_update_other:
  assumes "x \<in> set ws" and "x \<noteq> ws ! i"
  shows "x \<in> set (ws[i := y])"
proof -
  from assms(1) obtain j where j: "j < length ws" "ws ! j = x" by (auto simp: in_set_conv_nth)
  with assms(2) have "j \<noteq> i" by auto
  with j have "(ws[i := y]) ! j = x" "j < length (ws[i := y])" by simp_all
  then show ?thesis by (metis nth_mem)
qed

lemma in_set_updateD: "x \<in> set (ws[i := y]) \<Longrightarrow> x = y \<or> x \<in> set ws"
  using set_update_subset_insert [of ws i y] by auto

subsection \<open>The invariant of the uploads under each change of the pool\<close>

lemma ackInv_append_Finished:
  assumes "ackInv u p"
  shows "ackInv u (p\<lparr>workers := workers p @ [Finished]\<rparr>)"
  using assms unfolding ackInv_def by (auto simp: case_prod_beta)

lemma ackInv_append_Uploading:
  assumes "ackInv u p"
  shows "ackInv u (p\<lparr>offset := off, issued := issued p @ [(s, e)],
                     workers := workers p @ [Uploading s e]\<rparr>)"
  using assms unfolding ackInv_def by (auto simp: case_prod_beta)

lemma ackInv_update_Rejected:
  assumes inv: "ackInv u p" and i: "i < length (workers p)"
    and at: "workers p ! i = Uploading s e" and fail: "u s e = Inl err"
  shows "ackInv u (p\<lparr>workers := (workers p)[i := Rejected err]\<rparr>)"
proof -
  let ?ws = "workers p" and ?ws' = "(workers p)[i := Rejected err]"
  have mem: "Uploading s e \<in> set ?ws" using i at by (metis nth_mem)
  have new: "Rejected err \<in> set ?ws'" using i by (rule set_update_memI)
  have c1: "\<forall>s e. Uploading s e \<in> set ?ws' \<longrightarrow> (s, e) \<in> set (issued p)"
    using inv unfolding ackInv_def by (auto dest: in_set_updateD)
  have c2: "\<forall>(s, e) \<in> set (issued p). u s e = Inr () \<or> Uploading s e \<in> set ?ws'
              \<or> (\<exists>err. Rejected err \<in> set ?ws')"
    using new by auto
  have se: "(s, e) \<in> set (issued p)" using inv mem unfolding ackInv_def by blast
  have c3: "\<forall>err'. Rejected err' \<in> set ?ws'
              \<longrightarrow> (\<exists>(s, e) \<in> set (issued p). u s e = Inl err')"
  proof (intro allI impI)
    fix err' assume "Rejected err' \<in> set ?ws'"
    then have "err' = err \<or> Rejected err' \<in> set ?ws" by (auto dest: in_set_updateD)
    then show "\<exists>(s, e) \<in> set (issued p). u s e = Inl err'"
    proof
      assume "err' = err"
      with se fail show ?thesis by auto
    next
      assume "Rejected err' \<in> set ?ws"
      with inv show ?thesis unfolding ackInv_def by blast
    qed
  qed
  from c1 c2 c3 show ?thesis unfolding ackInv_def by simp
qed

lemma ackInv_update_ok:
  assumes inv: "ackInv u p" and i: "i < length (workers p)"
    and at: "workers p ! i = Uploading s e" and ok: "u s e = Inr ()"
    and wk: "wk = Finished \<and> is = [] \<or> (\<exists>s' e'. wk = Uploading s' e' \<and> is = [(s', e')])"
  shows "ackInv u (p\<lparr>offset := off, issued := issued p @ is,
                     workers := (workers p)[i := wk]\<rparr>)"
proof -
  let ?ws = "workers p" and ?ws' = "(workers p)[i := wk]"
  have new: "wk \<in> set ?ws'" using i by (rule set_update_memI)
  have c1: "\<forall>s e. Uploading s e \<in> set ?ws' \<longrightarrow> (s, e) \<in> set (issued p @ is)"
  proof (intro allI impI)
    fix s' e' assume "Uploading s' e' \<in> set ?ws'"
    then have "Uploading s' e' = wk \<or> Uploading s' e' \<in> set ?ws" by (auto dest: in_set_updateD)
    then show "(s', e') \<in> set (issued p @ is)"
    proof
      assume "Uploading s' e' = wk"
      with wk show ?thesis by auto
    next
      assume "Uploading s' e' \<in> set ?ws"
      with inv show ?thesis unfolding ackInv_def by auto
    qed
  qed
  have old: "\<And>x. x \<in> set ?ws \<Longrightarrow> x \<noteq> Uploading s e \<Longrightarrow> x \<in> set ?ws'"
    using at by (auto intro: in_set_update_other)
  have c2: "\<forall>(s, e) \<in> set (issued p @ is). u s e = Inr () \<or> Uploading s e \<in> set ?ws'
              \<or> (\<exists>err. Rejected err \<in> set ?ws')"
  proof (clarify)
    fix s' e'
    assume in': "(s', e') \<in> set (issued p @ is)"
      and nr: "\<not> (\<exists>err. Rejected err \<in> set ?ws')" and nok: "u s' e' \<noteq> Inr ()"
    show "Uploading s' e' \<in> set ?ws'"
    proof (cases "(s', e') \<in> set (issued p)")
      case True
      with inv have "u s' e' = Inr () \<or> Uploading s' e' \<in> set ?ws
          \<or> (\<exists>err. Rejected err \<in> set ?ws)"
        unfolding ackInv_def by blast
      moreover have "\<not> (\<exists>err. Rejected err \<in> set ?ws)" using nr old by blast
      ultimately have u: "Uploading s' e' \<in> set ?ws" using nok by simp
      have "Uploading s' e' \<noteq> Uploading s e" using nok ok by auto
      with u show ?thesis by (rule old)
    next
      case False
      with in' have "(s', e') \<in> set is" by simp
      with wk have "wk = Uploading s' e'" by auto
      with new show ?thesis by simp
    qed
  qed
  have c3: "\<forall>err'. Rejected err' \<in> set ?ws'
              \<longrightarrow> (\<exists>(s, e) \<in> set (issued p @ is). u s e = Inl err')"
  proof (intro allI impI)
    fix err' assume "Rejected err' \<in> set ?ws'"
    then have "Rejected err' = wk \<or> Rejected err' \<in> set ?ws" by (auto dest: in_set_updateD)
    with wk have "Rejected err' \<in> set ?ws" by auto
    with inv have "\<exists>(s, e) \<in> set (issued p). u s e = Inl err'" unfolding ackInv_def by blast
    then show "\<exists>(s, e) \<in> set (issued p @ is). u s e = Inl err'" by auto
  qed
  from c1 c2 c3 show ?thesis unfolding ackInv_def by simp
qed

subsection \<open>The steps of a worker\<close>

lemma resume_Rejected:
  "workers p ! i = Uploading s e \<Longrightarrow> u s e = Inl err \<Longrightarrow>
   resume u F C i p = p\<lparr>workers := (workers p)[i := Rejected err]\<rparr>"
  by (simp add: resume_def)

lemma resume_Finished:
  "workers p ! i = Uploading s e \<Longrightarrow> u s e = Inr () \<Longrightarrow> \<not> offset p < F \<Longrightarrow>
   resume u F C i p = p\<lparr>workers := (workers p)[i := Finished]\<rparr>"
  by (simp add: resume_def claimChunk_Finished)

lemma resume_Uploading:
  "workers p ! i = Uploading s e \<Longrightarrow> u s e = Inr () \<Longrightarrow> offset p < F \<Longrightarrow>
   resume u F C i p =
     p\<lparr>offset := double (offset p + C),
       issued := issued p @ [(offset p, rangeEnd F C (offset p))],
       workers := (workers p)[i := Uploading (offset p) (rangeEnd F C (offset p))]\<rparr>"
  by (simp add: resume_def claimChunk_Uploading)

lemma startStep_Finished:
  "\<not> offset p < F \<Longrightarrow>
   (case claimChunk F C p of (wk, p') \<Rightarrow> p'\<lparr>workers := workers p' @ [wk]\<rparr>)
     = p\<lparr>workers := workers p @ [Finished]\<rparr>"
  by (simp add: claimChunk_Finished)

lemma startStep_Uploading:
  "offset p < F \<Longrightarrow>
   (case claimChunk F C p of (wk, p') \<Rightarrow> p'\<lparr>workers := workers p' @ [wk]\<rparr>)
     = p\<lparr>offset := double (offset p + C),
         issued := issued p @ [(offset p, rangeEnd F C (offset p))],
         workers := workers p @ [Uploading (offset p) (rangeEnd F C (offset p))]\<rparr>"
  by (simp add: claimChunk_Uploading)

subsection \<open>The steps keep the invariant of the uploads\<close>

lemma ackInv_startStep:
  assumes "ackInv u p"
  shows "ackInv u (case claimChunk F C p of (wk, p') \<Rightarrow> p'\<lparr>workers := workers p' @ [wk]\<rparr>)"
proof (cases "offset p < F")
  case True
  show ?thesis unfolding startStep_Uploading [OF True]
    by (rule ackInv_append_Uploading [OF assms])
next
  case False
  show ?thesis unfolding startStep_Finished [OF False]
    by (rule ackInv_append_Finished [OF assms])
qed

lemma ackInv_resume:
  assumes inv: "ackInv u p" and i: "i < length (workers p)"
    and at: "workers p ! i = Uploading s e"
  shows "ackInv u (resume u F C i p)"
proof (cases "u s e")
  case (Inl err)
  show ?thesis unfolding resume_Rejected [where u = u, OF at Inl]
    by (rule ackInv_update_Rejected [OF inv i at Inl])
next
  case (Inr x)
  then have ok: "u s e = Inr ()" by simp
  show ?thesis
  proof (cases "offset p < F")
    case True
    have "ackInv u (p\<lparr>offset := double (offset p + C),
        issued := issued p @ [(offset p, rangeEnd F C (offset p))],
        workers := (workers p)[i := Uploading (offset p) (rangeEnd F C (offset p))]\<rparr>)"
      by (rule ackInv_update_ok [OF inv i at ok]) simp
    then show ?thesis unfolding resume_Uploading [where u = u, OF at ok True] .
  next
    case False
    have "ackInv u (p\<lparr>offset := offset p, issued := issued p @ [],
        workers := (workers p)[i := Finished]\<rparr>)"
      by (rule ackInv_update_ok [OF inv i at ok]) simp
    then show ?thesis unfolding resume_Finished [where u = u, OF at ok False] by simp
  qed
qed

subsection \<open>The steps keep the invariant of the cursor\<close>

lemma cursorInv_workers:
  assumes "cursorInv F C p" and "Finished \<in> set ws \<longrightarrow> F \<le> offset p"
  shows "cursorInv F C (p\<lparr>workers := ws\<rparr>)"
proof -
  let ?p' = "p\<lparr>workers := ws\<rparr>"
  have sel: "issued ?p' = issued p" "offset ?p' = offset p" "workers ?p' = ws" by simp_all
  show ?thesis using assms unfolding cursorInv_def sel by blast
qed

lemma cursorInv_claimed:
  assumes C: "0 < C" and F53: "F \<le> 2 ^ 53" and inv: "cursorInv F C p"
    and lt: "offset p < F"
    and ws: "Finished \<in> set ws \<longrightarrow> F \<le> offset p"
  shows "cursorInv F C (p\<lparr>offset := double (offset p + C),
           issued := issued p @ [(offset p, rangeEnd F C (offset p))],
           workers := ws\<rparr>)"
proof -
  let ?r = "(offset p, rangeEnd F C (offset p))"
  let ?p' = "p\<lparr>offset := double (offset p + C), issued := issued p @ [?r], workers := ws\<rparr>"
  have k: "length (issued p) < length (chunkRanges F C)"
    by (rule cursorInv_before_end [OF inv lt])
  from inv have offk: "length (issued p) < length (chunkRanges F C)
        \<longrightarrow> offset p = int (length (issued p)) * C"
    and pre: "issued p = take (length (issued p)) (chunkRanges F C)"
    unfolding cursorInv_def by blast+
  from offk k have off: "offset p = int (length (issued p)) * C" by simp
  note st = cursor_step [OF C F53 k off pre refl]
  from ws lt have nfin: "Finished \<notin> set ws" by auto
  have sel: "issued ?p' = issued p @ [?r]" "offset ?p' = double (offset p + C)"
    "workers ?p' = ws"
    by simp_all
  show ?thesis using st nfin unfolding cursorInv_def sel by blast
qed

lemma cursorInv_startStep:
  assumes C: "0 < C" and F53: "F \<le> 2 ^ 53" and inv: "cursorInv F C p"
  shows "cursorInv F C (case claimChunk F C p of (wk, p') \<Rightarrow> p'\<lparr>workers := workers p' @ [wk]\<rparr>)"
proof (cases "offset p < F")
  case True
  from inv have "Finished \<in> set (workers p) \<longrightarrow> F \<le> offset p"
    unfolding cursorInv_def by blast
  then have "Finished \<in> set (workers p @ [Uploading (offset p) (rangeEnd F C (offset p))])
      \<longrightarrow> F \<le> offset p" by simp
  from cursorInv_claimed [OF C F53 inv True this]
  show ?thesis unfolding startStep_Uploading [OF True] .
next
  case False
  from inv False have "Finished \<in> set (workers p @ [Finished]) \<longrightarrow> F \<le> offset p" by simp
  from cursorInv_workers [OF inv this]
  show ?thesis unfolding startStep_Finished [OF False] .
qed

lemma cursorInv_resume:
  assumes C: "0 < C" and F53: "F \<le> 2 ^ 53" and inv: "cursorInv F C p"
    and i: "i < length (workers p)"
    and at: "workers p ! i = Uploading s e"
  shows "cursorInv F C (resume u F C i p)"
proof -
  from inv have fin: "Finished \<in> set (workers p) \<longrightarrow> F \<le> offset p"
    unfolding cursorInv_def by blast
  show ?thesis
  proof (cases "u s e")
    case (Inl err)
    have "Finished \<in> set ((workers p)[i := Rejected err]) \<longrightarrow> F \<le> offset p"
      using fin by (auto dest: in_set_updateD)
    from cursorInv_workers [OF inv this]
    show ?thesis unfolding resume_Rejected [where u = u, OF at Inl] .
  next
    case (Inr x)
    then have ok: "u s e = Inr ()" by simp
    show ?thesis
    proof (cases "offset p < F")
      case True
      have "Finished \<in> set ((workers p)[i := Uploading (offset p) (rangeEnd F C (offset p))])
          \<longrightarrow> F \<le> offset p"
        using fin by (auto dest: in_set_updateD)
      from cursorInv_claimed [OF C F53 inv True this]
      show ?thesis unfolding resume_Uploading [where u = u, OF at ok True] .
    next
      case False
      then have "Finished \<in> set ((workers p)[i := Finished]) \<longrightarrow> F \<le> offset p" by simp
      from cursorInv_workers [OF inv this]
      show ?thesis unfolding resume_Finished [where u = u, OF at ok False] .
    qed
  qed
qed

subsection \<open>Every settled upload brings the pool nearer to its end\<close>

lemma pending_startStep:
  assumes inv: "cursorInv F C p"
  shows "pending F C (case claimChunk F C p of (wk, p') \<Rightarrow> p'\<lparr>workers := workers p' @ [wk]\<rparr>)
     = pending F C p"
proof (cases "offset p < F")
  case True
  have "length (issued p) < length (chunkRanges F C)"
    by (rule cursorInv_before_end [OF inv True])
  then show ?thesis unfolding startStep_Uploading [OF True] by (simp add: pending_def)
next
  case False
  show ?thesis unfolding startStep_Finished [OF False] by (simp add: pending_def)
qed

lemma pending_resume:
  assumes inv: "cursorInv F C p" and i: "i < length (workers p)"
    and at: "workers p ! i = Uploading s e"
  shows "Suc (pending F C (resume u F C i p)) = pending F C p"
proof -
  have up: "\<And>x. length (filter isUploading ((workers p)[i := x])) + 1
      = length (filter isUploading (workers p)) + (if isUploading x then 1 else 0)"
    using length_filter_update [OF i, of isUploading] at by simp
  show ?thesis
  proof (cases "u s e")
    case (Inl err)
    show ?thesis unfolding resume_Rejected [where u = u, OF at Inl]
      using up [of "Rejected err"] by (simp add: pending_def)
  next
    case (Inr x)
    then have ok: "u s e = Inr ()" by simp
    show ?thesis
    proof (cases "offset p < F")
      case True
      have "length (issued p) < length (chunkRanges F C)"
        by (rule cursorInv_before_end [OF inv True])
      then show ?thesis unfolding resume_Uploading [where u = u, OF at ok True]
        using up [of "Uploading (offset p) (rangeEnd F C (offset p))"]
        by (simp add: pending_def)
    next
      case False
      show ?thesis unfolding resume_Finished [where u = u, OF at ok False]
        using up [of Finished] by (simp add: pending_def)
    qed
  qed
qed

subsection \<open>Starting the workers\<close>

lemma startWorkers_Suc:
  "startWorkers F C (Suc n) p =
     startWorkers F C n (case claimChunk F C p of (wk, p') \<Rightarrow> p'\<lparr>workers := workers p' @ [wk]\<rparr>)"
  by (simp add: Let_def split: prod.split)

lemma ackInv_startWorkers: "ackInv u p \<Longrightarrow> ackInv u (startWorkers F C n p)"
proof (induction n arbitrary: p)
  case 0
  then show ?case by simp
next
  case (Suc n)
  show ?case unfolding startWorkers_Suc
    by (rule Suc.IH) (rule ackInv_startStep [OF Suc.prems])
qed

lemma cursorInv_startWorkers:
  "0 < C \<Longrightarrow> F \<le> 2 ^ 53 \<Longrightarrow> cursorInv F C p \<Longrightarrow> cursorInv F C (startWorkers F C n p)"
proof (induction n arbitrary: p)
  case 0
  then show ?case by simp
next
  case (Suc n)
  show ?case unfolding startWorkers_Suc
    by (rule Suc.IH [OF Suc.prems(1,2)]) (rule cursorInv_startStep [OF Suc.prems])
qed

lemma pending_startWorkers:
  "0 < C \<Longrightarrow> F \<le> 2 ^ 53 \<Longrightarrow> cursorInv F C p \<Longrightarrow>
   pending F C (startWorkers F C n p) = pending F C p"
proof (induction n arbitrary: p)
  case 0
  then show ?case by simp
next
  case (Suc n)
  have "pending F C (startWorkers F C (Suc n) p)
      = pending F C (case claimChunk F C p of (wk, p') \<Rightarrow> p'\<lparr>workers := workers p' @ [wk]\<rparr>)"
    unfolding startWorkers_Suc
    by (rule Suc.IH [OF Suc.prems(1,2)]) (rule cursorInv_startStep [OF Suc.prems])
  also have "\<dots> = pending F C p" by (rule pending_startStep [OF Suc.prems(3)])
  finally show ?case .
qed

lemma length_workers_startWorkers:
  "length (workers (startWorkers F C n p)) = length (workers p) + n"
proof (induction n arbitrary: p)
  case 0
  then show ?case by simp
next
  case (Suc n)
  have "length (workers (case claimChunk F C p of (wk, p') \<Rightarrow> p'\<lparr>workers := workers p' @ [wk]\<rparr>))
      = Suc (length (workers p))"
    by (simp add: claimChunk_def Let_def)
  with Suc.IH show ?case unfolding startWorkers_Suc by simp
qed

lemma length_workers_resume: "length (workers (resume u F C i p)) = length (workers p)"
  by (simp add: resume_def claimChunk_def Let_def split: worker.split sum.split)

subsection \<open>How the pool settles\<close>

lemma firstRejected_None: "(firstRejected ws = None) = (\<forall>e. Rejected e \<notin> set ws)"
  by (induction ws rule: firstRejected.induct) auto

lemma firstRejected_Some: "firstRejected ws = Some e \<Longrightarrow> Rejected e \<in> set ws"
  by (induction ws rule: firstRejected.induct) auto

lemma settled_fulfilled:
  "(settled p = Some (Inr ()))
     = ((\<forall>e. Rejected e \<notin> set (workers p)) \<and> (\<forall>wk \<in> set (workers p). wk = Finished))"
proof (cases "firstRejected (workers p)")
  case None
  then have "\<forall>e. Rejected e \<notin> set (workers p)" by (simp add: firstRejected_None)
  with None show ?thesis by (simp add: settled_def list_all_iff)
next
  case (Some e)
  then have "Rejected e \<in> set (workers p)" by (rule firstRejected_Some)
  with Some show ?thesis by (auto simp: settled_def)
qed

lemma settled_rejected: "settled p = Some (Inl e) \<Longrightarrow> Rejected e \<in> set (workers p)"
  by (auto simp: settled_def split: option.splits if_splits dest: firstRejected_Some)

lemma settled_pending:
  assumes "settled p = None"
  shows "\<exists>wk \<in> set (workers p). isUploading wk"
proof -
  from assms have nr: "\<forall>e. Rejected e \<notin> set (workers p)"
    and nf: "\<not> (\<forall>wk \<in> set (workers p). wk = Finished)"
    by (auto simp: settled_def firstRejected_None list_all_iff split: option.splits if_splits)
  from nf obtain wk where wk: "wk \<in> set (workers p)" "wk \<noteq> Finished" by auto
  with nr have "isUploading wk" by (cases wk) auto
  with wk show ?thesis by auto
qed

lemma set_inflight: "set (inflight p) = {i. i < length (workers p) \<and> isUploading (workers p ! i)}"
  by (auto simp: inflight_def)

lemma inflight_nonempty:
  assumes "settled p = None"
  shows "inflight p \<noteq> []"
proof -
  from settled_pending [OF assms] obtain i where "i < length (workers p)" "isUploading (workers p ! i)"
    by (auto simp: in_set_conv_nth)
  then have "i \<in> set (inflight p)" by (simp add: set_inflight)
  then show ?thesis by auto
qed

lemma picked:
  assumes "settled p = None"
  shows "inflight p ! (k mod length (inflight p)) < length (workers p)
    \<and> (\<exists>s e. workers p ! (inflight p ! (k mod length (inflight p))) = Uploading s e)"
proof -
  let ?i = "inflight p ! (k mod length (inflight p))"
  have "0 < length (inflight p)" using inflight_nonempty [OF assms] by simp
  then have "?i \<in> set (inflight p)" by simp
  then have i: "?i < length (workers p)" and u: "isUploading (workers p ! ?i)"
    by (simp_all add: set_inflight)
  from u obtain s e where "workers p ! ?i = Uploading s e" by (cases "workers p ! ?i") auto
  with i show ?thesis by blast
qed

lemma pending_0_settled:
  assumes "pending F C p = 0"
  shows "settled p \<noteq> None"
proof
  assume "settled p = None"
  from settled_pending [OF this] have "filter isUploading (workers p) \<noteq> []"
    by (simp add: filter_empty_conv)
  with assms show False by (simp add: pending_def)
qed

subsection \<open>The run of the pool\<close>

lemma runPool_fst: "fst (runPool u F C sched p) = settled (snd (runPool u F C sched p))"
  by (induction sched arbitrary: p) (auto split: option.splits)

lemma runPool_ackInv: "ackInv u p \<Longrightarrow> ackInv u (snd (runPool u F C sched p))"
proof (induction sched arbitrary: p)
  case Nil
  then show ?case by simp
next
  case (Cons k ks)
  show ?case
  proof (cases "settled p")
    case None
    from picked [OF None, of k] obtain s e
      where i: "inflight p ! (k mod length (inflight p)) < length (workers p)"
        and at: "workers p ! (inflight p ! (k mod length (inflight p))) = Uploading s e"
      by blast
    have "ackInv u (resume u F C (inflight p ! (k mod length (inflight p))) p)"
      by (rule ackInv_resume [OF Cons.prems i at])
    from Cons.IH [OF this] None show ?thesis by simp
  next
    case (Some r)
    with Cons.prems show ?thesis by simp
  qed
qed

lemma runPool_cursorInv:
  "0 < C \<Longrightarrow> F \<le> 2 ^ 53 \<Longrightarrow> cursorInv F C p \<Longrightarrow>
   cursorInv F C (snd (runPool u F C sched p))"
proof (induction sched arbitrary: p)
  case Nil
  then show ?case by simp
next
  case (Cons k ks)
  show ?case
  proof (cases "settled p")
    case None
    from picked [OF None, of k] obtain s e
      where i: "inflight p ! (k mod length (inflight p)) < length (workers p)"
        and at: "workers p ! (inflight p ! (k mod length (inflight p))) = Uploading s e"
      by blast
    have "cursorInv F C (resume u F C (inflight p ! (k mod length (inflight p))) p)"
      by (rule cursorInv_resume [OF Cons.prems i at])
    from Cons.IH [OF Cons.prems(1,2) this] None show ?thesis by simp
  next
    case (Some r)
    with Cons.prems show ?thesis by simp
  qed
qed

lemma runPool_length_workers:
  "length (workers (snd (runPool u F C sched p))) = length (workers p)"
  by (induction sched arbitrary: p) (auto simp: length_workers_resume split: option.splits)

lemma runPool_settles:
  "0 < C \<Longrightarrow> F \<le> 2 ^ 53 \<Longrightarrow> cursorInv F C p \<Longrightarrow> pending F C p \<le> length sched \<Longrightarrow>
   fst (runPool u F C sched p) \<noteq> None"
proof (induction sched arbitrary: p)
  case Nil
  then have "pending F C p = 0" by simp
  then show ?case using pending_0_settled by simp
next
  case (Cons k ks)
  show ?case
  proof (cases "settled p")
    case None
    let ?i = "inflight p ! (k mod length (inflight p))"
    from picked [OF None, of k] obtain s e
      where i: "?i < length (workers p)" and at: "workers p ! ?i = Uploading s e"
      by blast
    have inv: "cursorInv F C (resume u F C ?i p)"
      by (rule cursorInv_resume [OF Cons.prems(1,2,3) i at])
    have "Suc (pending F C (resume u F C ?i p)) = pending F C p"
      by (rule pending_resume [OF Cons.prems(3) i at])
    with Cons.prems(4) have "pending F C (resume u F C ?i p) \<le> length ks" by simp
    from Cons.IH [OF Cons.prems(1,2) inv this] None show ?thesis by simp
  next
    case (Some r)
    then show ?thesis by simp
  qed
qed

subsection \<open>The partition\<close>

lemma chunk_start_before_end:
  assumes "0 < C" and "k < length (chunkRanges F C)"
  shows "int k * C < F"
  using assms cursor_before_end [of C k F] by (simp add: length_chunkRanges)

lemma mult_Suc_int: "int (Suc k) * C = int k * C + C"
  by (simp add: distrib_right)

lemma mult_le_int:
  fixes C :: int
  assumes "0 < C" and "i < j"
  shows "int i * C + C \<le> int j * C"
proof -
  have "int i + 1 \<le> int j" using assms(2) by simp
  then have "(int i + 1) * C \<le> int j * C" using assms(1) by (simp add: mult_right_mono)
  then show ?thesis by (simp add: distrib_right)
qed

lemma chunkRanges_count:
  assumes "0 < C"
  shows "F \<le> int (length (chunkRanges F C)) * C
    \<and> (0 < length (chunkRanges F C) \<longrightarrow> (int (length (chunkRanges F C)) - 1) * C < F)"
proof -
  let ?N = "length (chunkRanges F C)"
  have "\<not> int ?N * C < F"
    using cursor_before_end [OF assms, of ?N F] by (simp add: length_chunkRanges)
  then have a: "F \<le> int ?N * C" by simp
  have b: "0 < ?N \<longrightarrow> (int ?N - 1) * C < F"
  proof
    assume "0 < ?N"
    then have "?N - 1 < ?N" by simp
    from chunk_start_before_end [OF assms this] have "int (?N - 1) * C < F" .
    moreover have "int (?N - 1) = int ?N - 1" using \<open>0 < ?N\<close> by linarith
    ultimately show "(int ?N - 1) * C < F" by simp
  qed
  from a b show ?thesis by simp
qed

lemma chunkRanges_isPartition:
  assumes C: "0 < C"
  shows "isPartition (chunkRanges F C) F C"
proof -
  let ?rs = "chunkRanges F C"
  have p1: "\<forall>k < length ?rs. fst (?rs ! k) \<le> snd (?rs ! k) \<and> snd (?rs ! k) - fst (?rs ! k) + 1 \<le> C"
  proof (intro allI impI)
    fix k assume k: "k < length ?rs"
    from chunk_start_before_end [OF C k] have "int k * C < F" .
    then show "fst (?rs ! k) \<le> snd (?rs ! k) \<and> snd (?rs ! k) - fst (?rs ! k) + 1 \<le> C"
      using C unfolding nth_chunkRanges [OF k] by simp
  qed
  have p2: "\<forall>k. Suc k < length ?rs \<longrightarrow> fst (?rs ! Suc k) = snd (?rs ! k) + 1"
  proof (intro allI impI)
    fix k assume sk: "Suc k < length ?rs"
    then have k: "k < length ?rs" by simp
    have e1: "int (Suc k) * C = int k * C + C" by (rule mult_Suc_int)
    have lt: "int k * C + C < F" using chunk_start_before_end [OF C sk] unfolding e1 .
    show "fst (?rs ! Suc k) = snd (?rs ! k) + 1"
      unfolding nth_chunkRanges [OF k] nth_chunkRanges [OF sk] fst_conv snd_conv e1
      using lt by simp
  qed
  have p3: "\<forall>i j. i < j \<and> j < length ?rs
      \<longrightarrow> {fst (?rs ! i)..snd (?rs ! i)} \<inter> {fst (?rs ! j)..snd (?rs ! j)} = {}"
  proof (intro allI impI)
    fix i j assume ij: "i < j \<and> j < length ?rs"
    then have i: "i < length ?rs" and j: "j < length ?rs" by simp_all
    have "int i * C + C \<le> int j * C" using C ij by (simp add: mult_le_int)
    then have "snd (?rs ! i) < fst (?rs ! j)"
      unfolding nth_chunkRanges [OF i] nth_chunkRanges [OF j] by simp
    then show "{fst (?rs ! i)..snd (?rs ! i)} \<inter> {fst (?rs ! j)..snd (?rs ! j)} = {}" by auto
  qed
  have p4: "(\<Union>(s, e) \<in> set ?rs. {s..e}) = {0..F - 1}"
  proof (intro set_eqI iffI)
    fix x assume "x \<in> (\<Union>(s, e) \<in> set ?rs. {s..e})"
    then obtain s e where se: "(s, e) \<in> set ?rs" and x: "s \<le> x" "x \<le> e" by auto
    from se obtain k where k: "k < length ?rs" and at: "?rs ! k = (s, e)"
      by (auto simp: in_set_conv_nth)
    from at have "(int k * C, min F (int k * C + C) - 1) = (s, e)"
      unfolding nth_chunkRanges [OF k] .
    then have s: "s = int k * C" and e: "e = min F (int k * C + C) - 1" by blast+
    have nn: "0 \<le> int k * C" using C by simp
    have "0 \<le> x" using nn s x by linarith
    moreover have "x \<le> F - 1" using e x by linarith
    ultimately show "x \<in> {0..F - 1}" by simp
  next
    fix x assume "x \<in> {0..F - 1}"
    then have x: "0 \<le> x" "x < F" by simp_all
    let ?k = "nat (x div C)"
    have d: "0 \<le> x div C" using x C by (simp add: pos_imp_zdiv_nonneg_iff)
    have "x = (x div C) * C + x mod C" by simp
    moreover have "0 \<le> x mod C" "x mod C < C" using C by simp_all
    ultimately have lo: "(x div C) * C \<le> x" and hi: "x < (x div C) * C + C" by linarith+
    have ik: "int ?k = x div C" using d by simp
    have "int ?k * C < F" using lo x ik by simp
    then have k: "?k < length ?rs"
      using cursor_before_end [OF C, of ?k F] by (simp add: length_chunkRanges)
    have "x \<in> {fst (?rs ! ?k)..snd (?rs ! ?k)}"
      unfolding nth_chunkRanges [OF k] using lo hi x ik by simp
    moreover have "?rs ! ?k \<in> set ?rs" using k by simp
    ultimately show "x \<in> (\<Union>(s, e) \<in> set ?rs. {s..e})"
      by (auto simp: case_prod_beta intro!: bexI [of _ "?rs ! ?k"])
  qed
  from p1 p2 p3 p4 show ?thesis unfolding isPartition_def by blast
qed

lemma chunkRanges_empty: "0 < C \<Longrightarrow> F \<le> 0 \<Longrightarrow> chunkRanges F C = []"
proof -
  assume C: "0 < C" and F: "F \<le> 0"
  have "\<not> int 0 * C < F" using F by simp
  then have "\<not> 0 < nat ((F + C - 1) div C)" using cursor_before_end [OF C, of 0 F] by simp
  then show ?thesis by (simp add: chunkRanges_def)
qed

subsection \<open>The outcome of the pool\<close>

lemma uploadChunks_eq:
  "uploadChunks u F C n sched =
     (settled (snd (runPool u F C sched (startWorkers F C n emptyPool))),
      issued (snd (runPool u F C sched (startWorkers F C n emptyPool))))"
  by (simp add: uploadChunks_def emptyPool_def Let_def case_prod_beta runPool_fst [symmetric])

lemma cursorInv_emptyPool:
  assumes "0 < C"
  shows "cursorInv F C emptyPool"
proof -
  have "(0 < F) = (0 < length (chunkRanges F C))"
    using cursor_before_end [OF assms, of 0 F] by (simp add: length_chunkRanges)
  then have "length (chunkRanges F C) = 0 \<longrightarrow> F \<le> 0" by auto
  then show ?thesis by (simp add: cursorInv_def emptyPool_def)
qed

lemma ackInv_emptyPool: "ackInv u emptyPool"
  by (simp add: ackInv_def emptyPool_def)

lemma pending_emptyPool: "pending F C emptyPool = length (chunkRanges F C)"
  by (simp add: pending_def emptyPool_def)

lemma cursorInv_final:
  "0 < C \<Longrightarrow> F \<le> 2 ^ 53 \<Longrightarrow>
   cursorInv F C (snd (runPool u F C sched (startWorkers F C n emptyPool)))"
  by (intro runPool_cursorInv cursorInv_startWorkers cursorInv_emptyPool)

lemma ackInv_final:
  "ackInv u (snd (runPool u F C sched (startWorkers F C n emptyPool)))"
  by (intro runPool_ackInv ackInv_startWorkers ackInv_emptyPool)

lemma length_workers_final:
  "length (workers (snd (runPool u F C sched (startWorkers F C n emptyPool)))) = n"
  by (simp add: runPool_length_workers length_workers_startWorkers emptyPool_def)

lemma uploadChunks_prefix:
  assumes "0 < C" and "F \<le> 2 ^ 53"
  shows "snd (uploadChunks u F C n sched)
     = take (length (snd (uploadChunks u F C n sched))) (chunkRanges F C)"
  using cursorInv_final [OF assms, of u sched n] unfolding cursorInv_def uploadChunks_eq snd_conv
  by blast

lemma uploadChunks_fulfilled_ranges:
  assumes C: "0 < C" and F53: "F \<le> 2 ^ 53" and n: "0 < n"
    and ok: "fst (uploadChunks u F C n sched) = Some (Inr ())"
  shows "snd (uploadChunks u F C n sched) = chunkRanges F C"
proof -
  let ?p = "snd (runPool u F C sched (startWorkers F C n emptyPool))"
  from ok have s: "settled ?p = Some (Inr ())" by (simp add: uploadChunks_eq)
  then have allf: "\<forall>wk \<in> set (workers ?p). wk = Finished" by (simp add: settled_fulfilled)
  have "workers ?p \<noteq> []" using length_workers_final [of u F C sched n] n by auto
  then obtain wk where "wk \<in> set (workers ?p)" by (cases "workers ?p") auto
  with allf have fin: "Finished \<in> set (workers ?p)" by auto
  from cursorInv_final [OF C F53, of u sched n]
  have len: "length (issued ?p) \<le> length (chunkRanges F C)"
    and off: "length (issued ?p) < length (chunkRanges F C)
        \<longrightarrow> offset ?p = int (length (issued ?p)) * C"
    and pre: "issued ?p = take (length (issued ?p)) (chunkRanges F C)"
    and atend: "Finished \<in> set (workers ?p) \<longrightarrow> F \<le> offset ?p"
    unfolding cursorInv_def by blast+
  have "\<not> length (issued ?p) < length (chunkRanges F C)"
  proof
    assume k: "length (issued ?p) < length (chunkRanges F C)"
    with off have "offset ?p = int (length (issued ?p)) * C" by simp
    moreover have "int (length (issued ?p)) * C < F"
      using k cursor_before_end [OF C, of "length (issued ?p)" F]
      by (simp only: length_chunkRanges)
    ultimately show False using atend fin by simp
  qed
  with len have "length (issued ?p) = length (chunkRanges F C)" by simp
  with pre have "issued ?p = chunkRanges F C" by simp
  then show ?thesis by (simp add: uploadChunks_eq)
qed


lemma uploadChunks_rejected:
  assumes "fst (uploadChunks u F C n sched) = Some (Inl err)"
  shows "\<exists>(s, e) \<in> set (snd (uploadChunks u F C n sched)). u s e = Inl err"
proof -
  let ?p = "snd (runPool u F C sched (startWorkers F C n emptyPool))"
  from assms have "settled ?p = Some (Inl err)" by (simp add: uploadChunks_eq)
  then have "Rejected err \<in> set (workers ?p)" by (rule settled_rejected)
  with ackInv_final [of u F C sched n]
  have "\<exists>(s, e) \<in> set (issued ?p). u s e = Inl err" unfolding ackInv_def by blast
  then show ?thesis by (simp add: uploadChunks_eq)
qed

lemma uploadChunks_settles:
  assumes C: "0 < C" and F53: "F \<le> 2 ^ 53"
    and len: "length (chunkRanges F C) \<le> length sched"
  shows "fst (uploadChunks u F C n sched) \<noteq> None"
proof -
  let ?s = "startWorkers F C n emptyPool"
  have inv: "cursorInv F C ?s" by (intro cursorInv_startWorkers cursorInv_emptyPool C F53)
  have "pending F C ?s = length (chunkRanges F C)"
    by (simp add: pending_startWorkers [OF C F53 cursorInv_emptyPool [OF C]] pending_emptyPool)
  with len have "pending F C ?s \<le> length sched" by simp
  from runPool_settles [OF C F53 inv this, of u]
  show ?thesis by (simp add: uploadChunks_eq runPool_fst)
qed

lemma uploadChunks_all_ok:
  assumes C: "0 < C" and F53: "F \<le> 2 ^ 53"
    and len: "length (chunkRanges F C) \<le> length sched"
    and ok: "\<forall>(s, e) \<in> set (chunkRanges F C). u s e = Inr ()"
  shows "fst (uploadChunks u F C n sched) = Some (Inr ())"
proof (cases "fst (uploadChunks u F C n sched)")
  case None
  with uploadChunks_settles [OF C F53 len, of u n] show ?thesis by simp
next
  case (Some r)
  show ?thesis
  proof (cases r)
    case (Inl err)
    with Some have "fst (uploadChunks u F C n sched) = Some (Inl err)" by simp
    from uploadChunks_rejected [OF this] obtain s e
      where se: "(s, e) \<in> set (snd (uploadChunks u F C n sched))" and f: "u s e = Inl err"
      by auto
    from se have "(s, e) \<in> set (chunkRanges F C)"
      using uploadChunks_prefix [OF C F53, of u n sched] by (metis in_set_takeD)
    with ok f show ?thesis by auto
  next
    case (Inr x)
    with Some show ?thesis by simp
  qed
qed

lemma uploadChunks_no_worker: "uploadChunks u F C 0 sched = (Some (Inr ()), [])"
  by (cases sched) (simp_all add: uploadChunks_def settled_def)

subsection \<open>The shape of \<open>uploadFile\<close> and \<open>saveCache\<close>\<close>

lemma uploadFile_pool:
  assumes "(truthy bc \<and> truthy cs) = False"
    and "assertDefined w ''uploadConcurrency'' (uploadConcurrency (getUploadOptions w options))
           = Inr n"
    and "assertDefined w ''uploadChunkSize'' (uploadChunkSize (getUploadOptions w options))
           = Inr C"
    and "(n < 0 \<or> 2 ^ 32 \<le> n) = False"
    and "getArchiveFileSizeInBytes w path = Inr F"
    and "cacheResourceUrl w cacheId = Inr url"
    and "openSync w path = Inr fd"
  shows "uploadFile w sched cacheId path key options bc cs =
     (fst (uploadChunks (uploadChunk w url) F C (nat n) sched),
      map (\<lambda>(s, e). UploadChunk url s e)
          (snd (uploadChunks (uploadChunk w url) F C (nat n) sched))
        @ (if fst (uploadChunks (uploadChunk w url) F C (nat n) sched) = None then []
           else [CloseSync fd]))"
  using assms(4)
  by (simp add: uploadFile_def Let_def assms(1-3) assms(5-7) case_prod_beta)







lemma failingWorld_sel [simp]:
  "getUploadOptions failingWorld = getUploadOptions sampleWorld"
  "assertDefined failingWorld = assertDefined sampleWorld"
  "getArchiveFileSizeInBytes failingWorld = getArchiveFileSizeInBytes sampleWorld"
  "openSync failingWorld = openSync sampleWorld"
  "isSuccessStatusCode failingWorld = isSuccessStatusCode sampleWorld"
  "sendStream_retried failingWorld = (\<lambda>url start end'. Inr (Some 500))"
  "cacheResourceUrl failingWorld = cacheResourceUrl sampleWorld"
  by (simp_all add: failingWorld_def cacheResourceUrl_def getCacheApiUrl_def fun_eq_iff)

subsection \<open>Chunk partitioning and the commit\<close>

text \<open>
  C3, as the claim states it, fails. With an upload concurrency of 0 no worker exists:
  \<open>uploadFile\<close> completes without a single chunk upload for an archive of 10 bytes and
  chunks of 4 bytes, where \<open>ceil(10/4) = 3\<close>. With one worker and a cache service that
  answers 500, the first chunk upload fails, the worker throws, and the other two
  ranges are never uploaded. With an upload concurrency of \<open>2^32\<close> the array of workers
  cannot be created and nothing is uploaded. With an archive of \<open>2^53 + 2\<close> bytes and
  chunks of \<open>2^53\<close> bytes the end of the second range, \<open>2^53 + 1\<close>, is rounded to \<open>2^53\<close>:
  \<open>uploadFile\<close> completes, and the last byte of the archive is in no range.
\<close>

theorem uploadFile_chunks_counterexample:
  "getArchiveFileSizeInBytes sampleWorld ''/tmp/cache.tzst'' = Inr 10
   \<and> nat ((10 + 4 - 1) div 4) = 3
   \<and> uploadFile sampleWorld [] 7 ''/tmp/cache.tzst'' ''k''
        (Some \<lparr>uploadConcurrency = Some 0, uploadChunkSize = Some 4\<rparr>) None None
      = (Some (Inr ()), [CloseSync 3])
   \<and> uploadFile failingWorld [0] 7 ''/tmp/cache.tzst'' ''k''
        (Some \<lparr>uploadConcurrency = Some 1, uploadChunkSize = Some 4\<rparr>) None None
      = (Some (Inl (ChunkResponded (Some 500))),
         [UploadChunk ''https://cache.example/_apis/artifactcache/caches/7'' 0 3, CloseSync 3])
   \<and> uploadFile sampleWorld [0, 0, 0] 7 ''/tmp/cache.tzst'' ''k''
        (Some \<lparr>uploadConcurrency = Some 4294967296, uploadChunkSize = Some 4\<rparr>) None None
      = (Some (Inl InvalidArrayLength), [])
   \<and> uploadFile (sampleWorld\<lparr>getArchiveFileSizeInBytes := \<lambda>path. Inr 9007199254740994\<rparr>)
        [0, 0] 7 ''/tmp/cache.tzst'' ''k''
        (Some \<lparr>uploadConcurrency = Some 1, uploadChunkSize = Some 9007199254740992\<rparr>)
        None None
      = (Some (Inr ()),
         [UploadChunk ''https://cache.example/_apis/artifactcache/caches/7''
            0 9007199254740991,
          UploadChunk ''https://cache.example/_apis/artifactcache/caches/7''
            9007199254740992 9007199254740992,
          CloseSync 3])
   \<and> chunkRanges 9007199254740994 9007199254740992
      = [(0, 9007199254740991), (9007199254740992, 9007199254740993)]"
proof -
  have u: "cacheResourceUrl sampleWorld 7
      = Inr ''https://cache.example/_apis/artifactcache/caches/7''"
    by (simp add: cacheResourceUrl_def getCacheApiUrl_def)
  have a: "uploadFile sampleWorld [] 7 ''/tmp/cache.tzst'' ''k''
        (Some \<lparr>uploadConcurrency = Some 0, uploadChunkSize = Some 4\<rparr>) None None
      = (Some (Inr ()), [CloseSync 3])"
    by (simp add: uploadFile_def u uploadChunks_no_worker)
  have up: "uploadChunk failingWorld ''https://cache.example/_apis/artifactcache/caches/7'' 0 3
      = Inl (ChunkResponded (Some 500))"
    by (simp add: uploadChunk_def)
  have pool: "uploadChunks
      (uploadChunk failingWorld ''https://cache.example/_apis/artifactcache/caches/7'')
      10 4 (Suc 0) [0]
      = (Some (Inl (ChunkResponded (Some 500))), [(0, 3)])"
    by (simp add: uploadChunks_def Let_def claimChunk_def double_def settled_def inflight_def
        resume_def up)
  have b: "uploadFile failingWorld [0] 7 ''/tmp/cache.tzst'' ''k''
        (Some \<lparr>uploadConcurrency = Some 1, uploadChunkSize = Some 4\<rparr>) None None
      = (Some (Inl (ChunkResponded (Some 500))),
         [UploadChunk ''https://cache.example/_apis/artifactcache/caches/7'' 0 3, CloseSync 3])"
    by (simp add: uploadFile_def u pool Let_def)
  have c: "uploadFile sampleWorld [0, 0, 0] 7 ''/tmp/cache.tzst'' ''k''
        (Some \<lparr>uploadConcurrency = Some 4294967296, uploadChunkSize = Some 4\<rparr>) None None
      = (Some (Inl InvalidArrayLength), [])"
    by (simp add: uploadFile_def)
  have d: "uploadFile (sampleWorld\<lparr>getArchiveFileSizeInBytes := \<lambda>path. Inr 9007199254740994\<rparr>)
        [0, 0] 7 ''/tmp/cache.tzst'' ''k''
        (Some \<lparr>uploadConcurrency = Some 1, uploadChunkSize = Some 9007199254740992\<rparr>)
        None None
      = (Some (Inr ()),
         [UploadChunk ''https://cache.example/_apis/artifactcache/caches/7''
            0 9007199254740991,
          UploadChunk ''https://cache.example/_apis/artifactcache/caches/7''
            9007199254740992 9007199254740992,
          CloseSync 3])"
    by code_simp
  have e: "chunkRanges 9007199254740994 9007199254740992
      = [(0, 9007199254740991), (9007199254740992, 9007199254740993)]"
    by code_simp
  from a b c d e show ?thesis by simp
qed

text \<open>
  C3, amended: on the HTTP path, for an archive of \<open>F \<le> 2^53\<close> bytes, a chunk size
  \<open>C > 0\<close> and an upload concurrency of at least 1, whenever \<open>uploadFile\<close> completes
  successfully it has issued exactly the chunk uploads of \<open>chunkRanges F C\<close>, in order,
  and then closed the descriptor; and it does complete successfully, in whatever order
  the uploads settle, when the concurrency is below \<open>2^32\<close> (so that the array of
  workers can be created), the URL of the cache service is configured, the archive can
  be opened, and every one of these chunk uploads succeeds (the schedule must be long
  enough for all of them to settle). The ranges are \<open>ceil(F/C)\<close> in number (the least
  \<open>N\<close> with \<open>F \<le> N * C\<close>), each non-empty and at most \<open>C\<close> bytes, contiguous, pairwise
  disjoint, and they cover exactly the bytes \<open>0\<close> to \<open>F - 1\<close>; for \<open>F = 0\<close> there is none.
\<close>

theorem uploadFile_chunks:
  assumes nb: "\<not> (truthy bc \<and> truthy cs)"
    and n: "assertDefined w ''uploadConcurrency'' (uploadConcurrency (getUploadOptions w options))
           = Inr n"
    and C: "assertDefined w ''uploadChunkSize'' (uploadChunkSize (getUploadOptions w options))
           = Inr C"
    and n1: "1 \<le> n" and pos: "0 < C"
    and F: "getArchiveFileSizeInBytes w path = Inr F" and F53: "F \<le> 2 ^ 53"
  shows "(fst (uploadFile w sched cacheId path key options bc cs) = Some (Inr ())
            \<longrightarrow> (\<exists>url fd. cacheResourceUrl w cacheId = Inr url \<and> openSync w path = Inr fd
                  \<and> snd (uploadFile w sched cacheId path key options bc cs)
                      = map (\<lambda>(s, e). UploadChunk url s e) (chunkRanges F C) @ [CloseSync fd]))
    \<and> (\<forall>url fd. n < 2 ^ 32 \<and> cacheResourceUrl w cacheId = Inr url \<and> openSync w path = Inr fd
          \<and> (\<forall>(s, e) \<in> set (chunkRanges F C). uploadChunk w url s e = Inr ())
          \<and> length (chunkRanges F C) \<le> length sched
            \<longrightarrow> uploadFile w sched cacheId path key options bc cs
                = (Some (Inr ()),
                   map (\<lambda>(s, e). UploadChunk url s e) (chunkRanges F C) @ [CloseSync fd]))
    \<and> length (chunkRanges F C) = nat ((F + C - 1) div C)
    \<and> F \<le> int (length (chunkRanges F C)) * C
    \<and> (0 < length (chunkRanges F C) \<longrightarrow> (int (length (chunkRanges F C)) - 1) * C < F)
    \<and> isPartition (chunkRanges F C) F C
    \<and> (F = 0 \<longrightarrow> chunkRanges F C = [])"
proof -
  let ?U = "uploadFile w sched cacheId path key options bc cs"
  have nb': "(truthy bc \<and> truthy cs) = False" using nb by simp
  have n0: "0 < nat n" using n1 by simp
  have ranges: "snd ?U = map (\<lambda>(s, e). UploadChunk url s e) (chunkRanges F C) @ [CloseSync fd]"
    if range: "(n < 0 \<or> 2 ^ 32 \<le> n) = False" and url: "cacheResourceUrl w cacheId = Inr url"
      and fd: "openSync w path = Inr fd" and ok: "fst ?U = Some (Inr ())" for url fd
  proof -
    note pool = uploadFile_pool [OF nb' n C range F url fd, of sched key]
    from ok have f: "fst (uploadChunks (uploadChunk w url) F C (nat n) sched) = Some (Inr ())"
      unfolding pool by simp
    from uploadChunks_fulfilled_ranges [OF pos F53 n0 f] f
    show ?thesis unfolding pool by simp
  qed
  have a: "fst ?U = Some (Inr ())
      \<longrightarrow> (\<exists>url fd. cacheResourceUrl w cacheId = Inr url \<and> openSync w path = Inr fd
            \<and> snd ?U = map (\<lambda>(s, e). UploadChunk url s e) (chunkRanges F C) @ [CloseSync fd])"
  proof
    assume ok: "fst ?U = Some (Inr ())"
    show "\<exists>url fd. cacheResourceUrl w cacheId = Inr url \<and> openSync w path = Inr fd
            \<and> snd ?U = map (\<lambda>(s, e). UploadChunk url s e) (chunkRanges F C) @ [CloseSync fd]"
    proof (cases "n < 0 \<or> 2 ^ 32 \<le> n")
      case True
      then have "fst ?U = Some (Inl InvalidArrayLength)"
        by (simp add: uploadFile_def Let_def n C)
      with ok show ?thesis by simp
    next
      case False
      then have range: "(n < 0 \<or> 2 ^ 32 \<le> n) = False" by simp
      show ?thesis
      proof (cases "cacheResourceUrl w cacheId")
        case (Inl e)
        have "fst ?U = Some (Inl e)"
          using range by (simp add: uploadFile_def Let_def n C nb' F Inl)
        with ok show ?thesis by simp
      next
        case url: (Inr url)
        show ?thesis
        proof (cases "openSync w path")
          case (Inl e)
          have "fst ?U = Some (Inl e)"
            using range by (simp add: uploadFile_def Let_def n C nb' F url Inl)
          with ok show ?thesis by simp
        next
          case (Inr fd)
          from ranges [OF range url Inr ok] url Inr show ?thesis by blast
        qed
      qed
    qed
  qed
  have b: "\<forall>url fd. n < 2 ^ 32 \<and> cacheResourceUrl w cacheId = Inr url \<and> openSync w path = Inr fd
          \<and> (\<forall>(s, e) \<in> set (chunkRanges F C). uploadChunk w url s e = Inr ())
          \<and> length (chunkRanges F C) \<le> length sched
            \<longrightarrow> ?U = (Some (Inr ()),
                   map (\<lambda>(s, e). UploadChunk url s e) (chunkRanges F C) @ [CloseSync fd])"
  proof (intro allI impI)
    fix url fd
    assume h: "n < 2 ^ 32 \<and> cacheResourceUrl w cacheId = Inr url \<and> openSync w path = Inr fd
          \<and> (\<forall>(s, e) \<in> set (chunkRanges F C). uploadChunk w url s e = Inr ())
          \<and> length (chunkRanges F C) \<le> length sched"
    then have range: "(n < 0 \<or> 2 ^ 32 \<le> n) = False" using n1 by simp
    from h have url: "cacheResourceUrl w cacheId = Inr url" and fd: "openSync w path = Inr fd"
      by simp_all
    note pool = uploadFile_pool [OF nb' n C range F url fd, of sched key]
    from h have "fst (uploadChunks (uploadChunk w url) F C (nat n) sched) = Some (Inr ())"
      by (intro uploadChunks_all_ok [OF pos F53]) simp_all
    then have ok: "fst ?U = Some (Inr ())" unfolding pool by simp
    from ranges [OF range url fd ok] ok
    show "?U = (Some (Inr ()),
        map (\<lambda>(s, e). UploadChunk url s e) (chunkRanges F C) @ [CloseSync fd])"
      by (simp add: prod_eq_iff)
  qed
  have e: "F = 0 \<longrightarrow> chunkRanges F C = []" using chunkRanges_empty [OF pos, of F] by auto
  from a b length_chunkRanges [of F C] chunkRanges_count [OF pos, of F]
    chunkRanges_isPartition [OF pos, of F] e
  show ?thesis by blast
qed

lemma chunkRanges_10_4: "chunkRanges 10 4 = [(0, 3), (4, 7), (8, 9)]"
  by code_simp

theorem uploadFile_chunks_witness:
  "uploadFile sampleWorld [1, 0, 0] 7 ''/tmp/cache.tzst'' ''k'' None None None
     = (Some (Inr ()),
        [UploadChunk ''https://cache.example/_apis/artifactcache/caches/7'' 0 3,
         UploadChunk ''https://cache.example/_apis/artifactcache/caches/7'' 4 7,
         UploadChunk ''https://cache.example/_apis/artifactcache/caches/7'' 8 9,
         CloseSync 3])
   \<and> (\<exists>url fd. cacheResourceUrl sampleWorld 7 = Inr url
         \<and> openSync sampleWorld ''/tmp/cache.tzst'' = Inr fd
         \<and> snd (uploadFile sampleWorld [1, 0, 0] 7 ''/tmp/cache.tzst'' ''k'' None None None)
             = map (\<lambda>(s, e). UploadChunk url s e) (chunkRanges 10 4) @ [CloseSync fd])"
proof -
  let ?url = "''https://cache.example/_apis/artifactcache/caches/7''"
  let ?U = "uploadFile sampleWorld [1, 0, 0] 7 ''/tmp/cache.tzst'' ''k'' None None None"
  have nb: "\<not> (truthy None \<and> truthy None)" by simp
  have n: "assertDefined sampleWorld ''uploadConcurrency''
      (uploadConcurrency (getUploadOptions sampleWorld None)) = Inr 2" by simp
  have C: "assertDefined sampleWorld ''uploadChunkSize''
      (uploadChunkSize (getUploadOptions sampleWorld None)) = Inr 4" by simp
  have F: "getArchiveFileSizeInBytes sampleWorld ''/tmp/cache.tzst'' = Inr 10" by simp
  have n1: "(1::int) \<le> 2" and pos: "(0::int) < 4" and F53: "(10::int) \<le> 2 ^ 53" by simp_all
  have url: "cacheResourceUrl sampleWorld 7 = Inr ?url"
    by (simp add: cacheResourceUrl_def getCacheApiUrl_def)
  have fd: "openSync sampleWorld ''/tmp/cache.tzst'' = Inr 3" by simp
  have ok: "\<forall>(s, e) \<in> set (chunkRanges 10 4). uploadChunk sampleWorld ?url s e = Inr ()"
    by (simp add: uploadChunk_def)
  have len: "length (chunkRanges 10 4) \<le> length [1, 0, 0 :: nat]"
    by (simp add: chunkRanges_10_4)
  have n32: "(2::int) < 2 ^ 32" by simp
  note t = uploadFile_chunks [OF nb n C n1 pos F F53, of "[1, 0, 0]" 7 "''k''"]
  from t have t1: "fst ?U = Some (Inr ())
      \<longrightarrow> (\<exists>url fd. cacheResourceUrl sampleWorld 7 = Inr url
            \<and> openSync sampleWorld ''/tmp/cache.tzst'' = Inr fd
            \<and> snd ?U = map (\<lambda>(s, e). UploadChunk url s e) (chunkRanges 10 4) @ [CloseSync fd])"
    by (rule conjunct1)
  from t have t2: "\<forall>url fd. (2::int) < 2 ^ 32 \<and> cacheResourceUrl sampleWorld 7 = Inr url
          \<and> openSync sampleWorld ''/tmp/cache.tzst'' = Inr fd
          \<and> (\<forall>(s, e) \<in> set (chunkRanges 10 4). uploadChunk sampleWorld url s e = Inr ())
          \<and> length (chunkRanges 10 4) \<le> length [1, 0, 0 :: nat]
            \<longrightarrow> ?U = (Some (Inr ()),
                   map (\<lambda>(s, e). UploadChunk url s e) (chunkRanges 10 4) @ [CloseSync fd])"
    by (rule conjunct1 [OF conjunct2])
  from t2 n32 url fd ok len
  have whole: "?U = (Some (Inr ()),
      map (\<lambda>(s, e). UploadChunk ?url s e) (chunkRanges 10 4) @ [CloseSync 3])"
    by blast
  then have f: "fst ?U = Some (Inr ())" by simp
  with t1 have ex: "\<exists>url fd. cacheResourceUrl sampleWorld 7 = Inr url
            \<and> openSync sampleWorld ''/tmp/cache.tzst'' = Inr fd
            \<and> snd ?U = map (\<lambda>(s, e). UploadChunk url s e) (chunkRanges 10 4) @ [CloseSync fd]"
    by blast
  have "?U = (Some (Inr ()),
        [UploadChunk ?url 0 3, UploadChunk ?url 4 7, UploadChunk ?url 8 9, CloseSync 3])"
    unfolding whole by (simp add: chunkRanges_10_4)
  with ex show ?thesis by blast
qed



end
